theory Spec2Isabelle
  imports Complex_Main "HOL-Library.Sublist" "HOL-Library.Extended_Nat"
begin

section \<open>Data model\<close>

text \<open>
  The availability engine works on luxon \<open>DateTime\<close> values that the caller anchors to one
  named zone for a whole operation (the application reads \<open>GCAL_TIMEZONE\<close> and falls back
  to UTC). An instant is modelled by its local millisecond timestamp in that zone, taken to
  have a fixed offset: the order of two instants (luxon compares \<open>valueOf()\<close>), their
  difference, and their wall-clock fields are then all functions of this one integer.
\<close>

type_synonym instant = int

record interval =
  start :: instant
  end' :: instant

section \<open>Interval algebra (src/utils/intervals.ts)\<close>

text \<open>The \<open>map\<close> callback of \<open>mergeBusyIntervals\<close>: clamp one interval to the range.\<close>

definition clamp :: "instant \<Rightarrow> instant \<Rightarrow> interval \<Rightarrow> interval" where
  "clamp rangeStart rangeEnd iv =
     \<lparr> start = (if start iv < rangeStart then rangeStart else start iv),
       end' = (if end' iv > rangeEnd then rangeEnd else end' iv) \<rparr>"

text \<open>
  The body of the sweep loop. \<open>merged\<close> grows at its end (\<open>push\<close>), and the second branch
  overwrites the \<open>end\<close> field of its last element in place. The pushed element is a copy
  (\<open>{ ...interval }\<close>), so the in-place update touches \<open>merged\<close> only.
\<close>

definition merge_step :: "interval list \<Rightarrow> interval \<Rightarrow> interval list" where
  "merge_step merged iv =
     (if merged = [] \<or> start iv > end' (last merged) then merged @ [iv]
      else if end' iv > end' (last merged)
           then butlast merged @ [(last merged)\<lparr> end' := end' iv \<rparr>]
           else merged)"

text \<open>
  \<open>Array.prototype.sort\<close> with the comparator \<open>a.start.toMillis() - b.start.toMillis()\<close> is a
  stable sort on the start key; \<open>sort_key\<close> is one too.
\<close>

definition mergeBusyIntervals :: "interval list \<Rightarrow> instant \<Rightarrow> instant \<Rightarrow> interval list" where
  "mergeBusyIntervals intervals rangeStart rangeEnd =
     (let sorted = sort_key start
            (filter (\<lambda>iv. end' iv > start iv) (map (clamp rangeStart rangeEnd) intervals))
      in foldl merge_step [] sorted)"

text \<open>The body of the loop of \<open>buildFreeIntervals\<close>, on the pair of \<open>free\<close> and \<open>cursor\<close>.\<close>

definition free_step :: "interval list \<times> instant \<Rightarrow> interval \<Rightarrow> interval list \<times> instant" where
  "free_step st iv =
     (let free = fst st; cursor = snd st;
          free1 = (if start iv > cursor then free @ [\<lparr> start = cursor, end' = start iv \<rparr>] else free);
          cursor1 = (if end' iv > cursor then end' iv else cursor)
      in (free1, cursor1))"

definition buildFreeIntervals :: "instant \<Rightarrow> instant \<Rightarrow> interval list \<Rightarrow> interval list" where
  "buildFreeIntervals rangeStart rangeEnd busy =
     (if busy = [] then [\<lparr> start = rangeStart, end' = rangeEnd \<rparr>]
      else let st = foldl free_step ([], rangeStart) busy; free = fst st; cursor = snd st
           in if cursor < rangeEnd then free @ [\<lparr> start = cursor, end' = rangeEnd \<rparr>] else free)"

subsection \<open>Auxiliary notions for the interval algebra\<close>

text \<open>
  The sweep seen from its current last element: \<open>merge_from cur rest\<close> is what the loop adds to
  the elements before \<open>cur\<close> while it consumes \<open>rest\<close>. It is a proof device, related to the
  loop by \<open>foldl_merge_step\<close>.
\<close>

fun merge_from :: "interval \<Rightarrow> interval list \<Rightarrow> interval list" where
  "merge_from cur [] = [cur]"
| "merge_from cur (iv # rest) =
     (if start iv > end' cur then cur # merge_from iv rest
      else if end' iv > end' cur then merge_from (cur\<lparr> end' := end' iv \<rparr>) rest
      else merge_from cur rest)"

text \<open>The free intervals the cursor walk emits from a cursor position on (proof device).\<close>

fun free_from :: "instant \<Rightarrow> interval list \<Rightarrow> instant \<Rightarrow> interval list" where
  "free_from c [] e = (if c < e then [\<lparr> start = c, end' = e \<rparr>] else [])"
| "free_from c (iv # rest) e =
     (if start iv > c then [\<lparr> start = c, end' = start iv \<rparr>] else [])
     @ free_from (if end' iv > c then end' iv else c) rest e"

text \<open>
  A list of busy intervals that lies in \<open>[c, b]\<close>, each one non-empty and starting no earlier
  than its predecessor ends.
\<close>

fun chain :: "instant \<Rightarrow> interval list \<Rightarrow> instant \<Rightarrow> bool" where
  "chain c [] b = True"
| "chain c (iv # rest) b =
     (c \<le> start iv \<and> start iv < end' iv \<and> end' iv \<le> b \<and> chain (end' iv) rest b)"

text \<open>An instant lies in a half-open interval.\<close>

definition covers :: "instant \<Rightarrow> interval \<Rightarrow> bool" where
  "covers t iv = (start iv \<le> t \<and> t < end' iv)"

text \<open>Every interval ends strictly before each later one starts.\<close>

definition separated :: "interval list \<Rightarrow> bool" where
  "separated xs = sorted_wrt (\<lambda>x y. end' x < start y) xs"

text \<open>Every interval is non-empty and lies within the range.\<close>

definition inside :: "instant \<Rightarrow> instant \<Rightarrow> interval list \<Rightarrow> bool" where
  "inside a b xs = (\<forall>x \<in> set xs. a \<le> start x \<and> start x < end' x \<and> end' x \<le> b)"

text \<open>The instant of a wall-clock time on the day of the epoch, for the scenarios.\<close>

definition clock :: "int \<Rightarrow> int \<Rightarrow> instant" where
  "clock h m = h * 3600000 + m * 60000"

text \<open>The number of intervals of a list that hold a given instant.\<close>

definition cnt :: "instant \<Rightarrow> interval list \<Rightarrow> nat" where
  "cnt t xs = length (filter (covers t) xs)"

section \<open>Slot search and rendering (src/utils/intervals.ts)\<close>

record timeOfDay =
  hour :: int
  minute :: int

text \<open>The \<open>timeRange\<close> argument, \<open>{ start: {hour, minute}; end: {hour, minute} }\<close>.\<close>

record timeRange =
  startTime :: timeOfDay
  endTime :: timeOfDay

text \<open>
  \<open>day.set({ hour, minute })\<close>: luxon keeps the date, the second and the millisecond of
  \<open>day\<close> and rebuilds the timestamp from the fields, linearly in \<open>hour\<close> and \<open>minute\<close>.
\<close>

definition setHourMinute :: "instant \<Rightarrow> int \<Rightarrow> int \<Rightarrow> instant" where
  "setHourMinute day h m = (day div 86400000) * 86400000 + h * 3600000 + m * 60000 + day mod 60000"

text \<open>
  \<open>interval.end.diff(interval.start, 'minutes').minutes\<close>: the distance in minutes, with its
  fraction.
\<close>

definition diffMinutes :: "interval \<Rightarrow> real" where
  "diffMinutes iv = real_of_int (end' iv - start iv) / 60000"

text \<open>The inner loop of \<open>findFirstAvailableSlot\<close>; \<open>Some\<close> is its early \<open>return\<close>.\<close>

fun scanFree :: "interval list \<Rightarrow> int \<Rightarrow> instant option" where
  "scanFree [] durationMinutes = None"
| "scanFree (iv # rest) durationMinutes =
     (if diffMinutes iv \<ge> real_of_int durationMinutes then Some (start iv)
      else scanFree rest durationMinutes)"

fun findFirstAvailableSlot ::
  "instant list \<Rightarrow> timeRange \<Rightarrow> int \<Rightarrow> interval list \<Rightarrow> instant option" where
  "findFirstAvailableSlot [] tr durationMinutes busy = None"
| "findFirstAvailableSlot (day # days) tr durationMinutes busy =
     (let dayStart = setHourMinute day (hour (startTime tr)) (minute (startTime tr));
          dayEnd = setHourMinute day (hour (endTime tr)) (minute (endTime tr))
      in if dayEnd \<le> dayStart then findFirstAvailableSlot days tr durationMinutes busy
         else let mergedBusy = mergeBusyIntervals busy dayStart dayEnd;
                  freeIntervals = buildFreeIntervals dayStart dayEnd mergedBusy
              in case scanFree freeIntervals durationMinutes of
                   Some slot \<Rightarrow> Some slot
                 | None \<Rightarrow> findFirstAvailableSlot days tr durationMinutes busy)"

subsection \<open>The slot search as the specification words it\<close>

text \<open>
  The free intervals of one day: none when the day's window is empty or inverted, otherwise
  the complement of the merged busy intervals in the window.
\<close>

definition dayFreeIntervals :: "instant \<Rightarrow> timeRange \<Rightarrow> interval list \<Rightarrow> interval list" where
  "dayFreeIntervals day tr busy =
     (let dayStart = setHourMinute day (hour (startTime tr)) (minute (startTime tr));
          dayEnd = setHourMinute day (hour (endTime tr)) (minute (endTime tr))
      in if dayEnd \<le> dayStart then []
         else buildFreeIntervals dayStart dayEnd (mergeBusyIntervals busy dayStart dayEnd))"

definition qualifies :: "int \<Rightarrow> interval \<Rightarrow> bool" where
  "qualifies durationMinutes iv = (real_of_int durationMinutes \<le> diffMinutes iv)"

text \<open>
  The start of the first qualifying free interval, in day order and then interval order, or
  nothing.
\<close>

definition firstQualifyingStart ::
  "instant list \<Rightarrow> timeRange \<Rightarrow> int \<Rightarrow> interval list \<Rightarrow> instant option" where
  "firstQualifyingStart days tr durationMinutes busy =
     map_option start
       (find (qualifies durationMinutes) (concat (map (\<lambda>day. dayFreeIntervals day tr busy) days)))"

subsection \<open>The formatter\<close>

text \<open>
  \<open>toFormat('HH:mm')\<close>: the hour of the day and the minute of the hour, each padded to two
  digits.
\<close>

definition digitChar :: "int \<Rightarrow> char" where
  "digitChar n = ''0123456789'' ! nat n"

definition twoDigits :: "int \<Rightarrow> string" where
  "twoDigits n = [digitChar (n div 10), digitChar (n mod 10)]"

definition toFormatHHmm :: "instant \<Rightarrow> string" where
  "toFormatHHmm t = twoDigits ((t div 3600000) mod 24) @ '':'' @ twoDigits ((t div 60000) mod 60)"

text \<open>\<open>Array.prototype.join\<close>.\<close>

fun join :: "string \<Rightarrow> string list \<Rightarrow> string" where
  "join sep [] = []"
| "join sep [x] = x"
| "join sep (x # y # rest) = x @ sep @ join sep (y # rest)"

text \<open>The template literal of the \<open>map\<close> callback of \<open>formatIntervalsShort\<close>.\<close>

definition intervalLine :: "interval \<Rightarrow> string" where
  "intervalLine iv = toFormatHHmm (start iv) @ '' - '' @ toFormatHHmm (end' iv)"

text \<open>
  The sentinel of the source is the two-character Japanese word for \<open>none\<close> (U+306A, U+3057),
  written here as its six UTF-8 bytes.
\<close>

definition nashi :: string where
  "nashi = [CHR 0xE3, CHR 0x81, CHR 0xAA, CHR 0xE3, CHR 0x81, CHR 0x97]"

definition formatIntervalsShort :: "interval list \<Rightarrow> string" where
  "formatIntervalsShort intervals =
     (if length intervals = 0 then nashi
      else join [CHR 0x0A] (map intervalLine intervals))"

text \<open>The shape \<open>HH:MM\<close>: two digits, a colon, two digits.\<close>

definition isDigit :: "char \<Rightarrow> bool" where
  "isDigit c = (c \<in> set ''0123456789'')"

definition shapeHHMM :: "string \<Rightarrow> bool" where
  "shapeHHMM s = (case s of
       [h1, h2, c, m1, m2] \<Rightarrow> isDigit h1 \<and> isDigit h2 \<and> c = CHR '':'' \<and> isDigit m1 \<and> isDigit m2
     | _ \<Rightarrow> False)"

section \<open>Expression parser (src/utils/parse.ts)\<close>

subsection \<open>Regular expressions and numbers\<close>

text \<open>
  The patterns of the parser are anchored (\<open>^ ... $\<close>) and alternate runs of \<open>\d\<close> with single
  separator characters that are not digits, so a match, if there is one, takes each maximal
  run of digits whole. \<open>digitRun lo hi\<close> is \<open>\d{lo,hi}\<close> in such a position, \<open>digitsPlus\<close> is
  \<open>\d+\<close>, \<open>oneOf cs\<close> is a character class or a literal character; each returns what it
  matched and the rest of the input. \<open>\d\<close> matches the ten ASCII digits only.
\<close>

definition digitRun :: "nat \<Rightarrow> nat \<Rightarrow> string \<Rightarrow> (string \<times> string) option" where
  "digitRun lo hi s =
     (let ds = takeWhile isDigit s
      in if lo \<le> length ds \<and> length ds \<le> hi then Some (ds, dropWhile isDigit s) else None)"

definition digitsPlus :: "string \<Rightarrow> (string \<times> string) option" where
  "digitsPlus s =
     (let ds = takeWhile isDigit s
      in if 1 \<le> length ds then Some (ds, dropWhile isDigit s) else None)"

definition oneOf :: "string \<Rightarrow> string \<Rightarrow> (char \<times> string) option" where
  "oneOf cs s = (case s of [] \<Rightarrow> None | c # rest \<Rightarrow> if c \<in> set cs then Some (c, rest) else None)"

text \<open>
  \<open>Number\<close> on a capture of the date patterns. Such a capture holds at most four decimal
  digits, and the value of the digits is then the JavaScript number itself, with no rounding
  (lemma \<open>Number_is_NumberValue\<close> relates it to the model of \<open>Number\<close> on digit runs of any
  length, below).
\<close>

definition digitVal :: "char \<Rightarrow> int" where
  "digitVal c = int (of_char c) - 48"

definition Number :: "string \<Rightarrow> int" where
  "Number ds = foldl (\<lambda>n c. 10 * n + digitVal c) 0 ds"

text \<open>
  \<open>Number\<close> on a run of decimal digits of any length, as \<open>parseDuration\<close> applies it to the
  capture of \<open>\d+\<close>. A JavaScript number is an IEEE 754 double: the mathematical value of the
  digits is rounded to 53 significant bits, to nearest with ties to even, and a value that
  rounds to \<open>2 ^ 1024\<close> or more becomes \<open>Infinity\<close>. ECMAScript prescribes this rounding for up
  to twenty significant digits, and V8, the engine of Node.js, applies it to longer runs too.
  The numbers that occur here are non-negative integers or \<open>Infinity\<close> and are modelled by
  \<open>enat\<close>.
\<close>

definition decimalValue :: "string \<Rightarrow> nat" where
  "decimalValue ds = foldl (\<lambda>n c. 10 * n + (of_char c - 48)) 0 ds"

text \<open>The number of low bits that do not fit into 53 significant bits.\<close>

fun binaryExponent :: "nat \<Rightarrow> nat" where
  "binaryExponent n = (if n < 2 ^ 53 then 0 else Suc (binaryExponent (n div 2)))"

declare binaryExponent.simps [simp del]

definition roundToDouble :: "nat \<Rightarrow> enat" where
  "roundToDouble n =
     (let e = binaryExponent n; q = n div 2 ^ e; r = n mod 2 ^ e;
          q1 = (if 2 * r > 2 ^ e \<or> (2 * r = 2 ^ e \<and> odd q) then q + 1 else q);
          m = q1 * 2 ^ e
      in if m \<ge> 2 ^ 1024 then \<infinity> else enat m)"

definition NumberValue :: "string \<Rightarrow> enat" where
  "NumberValue ds = roundToDouble (decimalValue ds)"

text \<open>
  The product \<open>value * k\<close> of a number by a positive integer constant: the exact product,
  rounded; \<open>Infinity\<close> stays \<open>Infinity\<close>.
\<close>

definition timesDouble :: "enat \<Rightarrow> nat \<Rightarrow> enat" where
  "timesDouble v k = (case v of enat n \<Rightarrow> roundToDouble (n * k) | \<infinity> \<Rightarrow> \<infinity>)"

text \<open>\<open>/^(\d{4})-(\d{1,2})-(\d{1,2})$/\<close>\<close>

definition matchYmd :: "string \<Rightarrow> (string \<times> string \<times> string) option" where
  "matchYmd s =
     (case digitRun 4 4 s of None \<Rightarrow> None | Some (g1, r1) \<Rightarrow>
      case oneOf ''-'' r1 of None \<Rightarrow> None | Some (_, r2) \<Rightarrow>
      case digitRun 1 2 r2 of None \<Rightarrow> None | Some (g2, r3) \<Rightarrow>
      case oneOf ''-'' r3 of None \<Rightarrow> None | Some (_, r4) \<Rightarrow>
      case digitRun 1 2 r4 of None \<Rightarrow> None | Some (g3, r5) \<Rightarrow>
      if r5 = [] then Some (g1, g2, g3) else None)"

text \<open>\<open>/^(\d{1,2})[\/\-](\d{1,2})$/\<close>\<close>

definition matchMd :: "string \<Rightarrow> (string \<times> string) option" where
  "matchMd s =
     (case digitRun 1 2 s of None \<Rightarrow> None | Some (g1, r1) \<Rightarrow>
      case oneOf ''/-'' r1 of None \<Rightarrow> None | Some (_, r2) \<Rightarrow>
      case digitRun 1 2 r2 of None \<Rightarrow> None | Some (g2, r3) \<Rightarrow>
      if r3 = [] then Some (g1, g2) else None)"

text \<open>\<open>/^(\d{1,2}[\/\-]\d{1,2})-(\d{1,2}[\/\-]\d{1,2})$/\<close>\<close>

definition matchMdRange :: "string \<Rightarrow> (string \<times> string) option" where
  "matchMdRange s =
     (case digitRun 1 2 s of None \<Rightarrow> None | Some (a1, r1) \<Rightarrow>
      case oneOf ''/-'' r1 of None \<Rightarrow> None | Some (c1, r2) \<Rightarrow>
      case digitRun 1 2 r2 of None \<Rightarrow> None | Some (a2, r3) \<Rightarrow>
      case oneOf ''-'' r3 of None \<Rightarrow> None | Some (_, r4) \<Rightarrow>
      case digitRun 1 2 r4 of None \<Rightarrow> None | Some (b1, r5) \<Rightarrow>
      case oneOf ''/-'' r5 of None \<Rightarrow> None | Some (c2, r6) \<Rightarrow>
      case digitRun 1 2 r6 of None \<Rightarrow> None | Some (b2, r7) \<Rightarrow>
      if r7 = [] then Some (a1 @ [c1] @ a2, b1 @ [c2] @ b2) else None)"

text \<open>\<open>String.prototype.includes\<close> and \<open>String.prototype.split\<close> with a string separator.\<close>

fun includes' :: "string \<Rightarrow> string \<Rightarrow> bool" where
  "includes' sep [] = (sep = [])"
| "includes' sep (c # cs) = (prefix sep (c # cs) \<or> includes' sep cs)"

function splitFrom :: "string \<Rightarrow> string \<Rightarrow> string \<Rightarrow> string list" where
  "splitFrom sep cur [] = [cur]"
| "splitFrom sep cur (c # cs) =
     (if sep \<noteq> [] \<and> prefix sep (c # cs)
      then cur # splitFrom sep [] (drop (length sep) (c # cs))
      else splitFrom sep (cur @ [c]) cs)"
  by pat_completeness auto
termination
  by (relation "measure (\<lambda>(sep, cur, s). length s)") auto

definition split :: "string \<Rightarrow> string \<Rightarrow> string list" where
  "split sep s = splitFrom sep [] s"

subsection \<open>Calendar dates\<close>

text \<open>
  The parser builds its \<open>DateTime\<close> values with \<open>DateTime.fromObject({ year, month, day }, { zone })\<close>
  in the zone of \<open>now\<close>, and reads of \<open>now\<close> only \<open>now.year\<close> and \<open>now.startOf('day')\<close>. All of
  them are starts of days in one zone, so each is modelled by its calendar fields, and the
  reference instant \<open>now\<close> by the calendar date it falls on.
\<close>

record date =
  year :: int
  month :: int
  day :: int

text \<open>luxon's \<open>isLeapYear\<close> and \<open>daysInMonth\<close>; the latter wraps a month outside 1 to 12.\<close>

definition isLeapYear :: "int \<Rightarrow> bool" where
  "isLeapYear y = (y mod 4 = 0 \<and> (y mod 100 \<noteq> 0 \<or> y mod 400 = 0))"

definition daysInMonth :: "int \<Rightarrow> int \<Rightarrow> int" where
  "daysInMonth y m =
     (let modMonth = (m - 1) mod 12 + 1;
          modYear = y + (m - modMonth) div 12
      in if modMonth = 2 then (if isLeapYear modYear then 29 else 28)
         else [31, 28, 31, 30, 31, 30, 31, 31, 30, 31, 30, 31] ! nat (modMonth - 1))"

text \<open>
  \<open>isValid\<close> of a \<open>DateTime\<close> made by \<open>fromObject\<close>: the month is between 1 and 12 and the day
  between 1 and the length of the month.
\<close>

definition isValid :: "date \<Rightarrow> bool" where
  "isValid dt = (1 \<le> month dt \<and> month dt \<le> 12 \<and> 1 \<le> day dt \<and> day dt \<le> daysInMonth (year dt) (month dt))"

text \<open>
  The order of the calendar, which is the order of the timestamps of two valid starts of days
  in one zone.
\<close>

definition earlier :: "date \<Rightarrow> date \<Rightarrow> bool" where
  "earlier a b =
     (year a < year b \<or> (year a = year b \<and> (month a < month b \<or> (month a = month b \<and> day a < day b))))"

text \<open>
  \<open>a < b\<close> on \<open>DateTime\<close> values compares \<open>valueOf()\<close>, which is \<open>NaN\<close> for an invalid one, and
  every comparison with \<open>NaN\<close> is false.
\<close>

definition dateTimeLess :: "date \<Rightarrow> date \<Rightarrow> bool" where
  "dateTimeLess a b = (isValid a \<and> isValid b \<and> earlier a b)"

subsection \<open>Dates and date ranges\<close>

text \<open>The result of \<open>parseDateParts\<close>, \<open>{ year?, month, day, hasYear }\<close>.\<close>

record dateParts =
  partsYear :: "int option"
  partsMonth :: int
  partsDay :: int
  hasYear :: bool

definition parseDateParts :: "string \<Rightarrow> dateParts option" where
  "parseDateParts dateStr =
     (case matchYmd dateStr of
        Some (g1, g2, g3) \<Rightarrow>
          Some \<lparr> partsYear = Some (Number g1), partsMonth = Number g2, partsDay = Number g3,
                 hasYear = True \<rparr>
      | None \<Rightarrow>
         (case matchMd dateStr of
            Some (g1, g2) \<Rightarrow>
              Some \<lparr> partsYear = None, partsMonth = Number g1, partsDay = Number g2, hasYear = False \<rparr>
          | None \<Rightarrow> None))"

text \<open>
  \<open>parts.year!\<close> is read only when \<open>hasYear\<close> holds, and \<open>parseDateParts\<close> sets the two
  together (lemma \<open>parseDateParts_year\<close>).
\<close>

definition parseDate :: "string \<Rightarrow> date \<Rightarrow> date option" where
  "parseDate dateStr now =
     (case parseDateParts dateStr of
        None \<Rightarrow> None
      | Some parts \<Rightarrow>
          let year0 = (if hasYear parts then the (partsYear parts) else year now);
              candidate = \<lparr> year = year0, month = partsMonth parts, day = partsDay parts \<rparr>;
              year1 = (if \<not> hasYear parts \<and> isValid candidate \<and> dateTimeLess candidate now
                       then year0 + 1 else year0)
          in Some \<lparr> year = year1, month = partsMonth parts, day = partsDay parts \<rparr>)"

text \<open>
  The two tokens that \<open>parseDateRange\<close> cuts out of its input. A token is \<open>None\<close> where the
  source leaves it \<open>null\<close>; the array destructuring takes the first two pieces of the split.
\<close>

definition pieces :: "string list \<Rightarrow> string option \<times> string option" where
  "pieces ps = (case ps of [] \<Rightarrow> (None, None) | [a] \<Rightarrow> (Some a, None) | a # b # _ \<Rightarrow> (Some a, Some b))"

definition rangeTokens :: "string \<Rightarrow> string option \<times> string option" where
  "rangeTokens dateStr =
     (if includes' ''~'' dateStr then pieces (split ''~'' dateStr)
      else if includes' ''..'' dateStr then pieces (split ''..'' dateStr)
      else (case matchMdRange dateStr of
              Some (a, b) \<Rightarrow> (Some a, Some b)
            | None \<Rightarrow> (None, None)))"

text \<open>A token is truthy when it is neither \<open>null\<close> nor the empty string.\<close>

definition truthy :: "string option \<Rightarrow> bool" where
  "truthy tok = (case tok of None \<Rightarrow> False | Some s \<Rightarrow> s \<noteq> [])"

record dateRange =
  startDate :: date
  endDate :: date

text \<open>The branch of \<open>parseDateRange\<close> for two tokens, from the parsed parts on.\<close>

definition resolveRange :: "dateParts \<Rightarrow> dateParts \<Rightarrow> date \<Rightarrow> dateRange option" where
  "resolveRange startParts endParts now =
     (let startYear0 = (if hasYear startParts then the (partsYear startParts) else year now);
          startDate0 = \<lparr> year = startYear0, month = partsMonth startParts, day = partsDay startParts \<rparr>;
          startYear = (if \<not> hasYear startParts \<and> isValid startDate0 \<and> dateTimeLess startDate0 now
                       then startYear0 + 1 else startYear0);
          startDate1 = \<lparr> year = startYear, month = partsMonth startParts, day = partsDay startParts \<rparr>;
          endYear0 = (if hasYear endParts then the (partsYear endParts) else startYear);
          endDate0 = \<lparr> year = endYear0, month = partsMonth endParts, day = partsDay endParts \<rparr>;
          endYear = (if \<not> hasYear endParts \<and> isValid endDate0 \<and> dateTimeLess endDate0 startDate1
                     then endYear0 + 1 else endYear0);
          endDate1 = \<lparr> year = endYear, month = partsMonth endParts, day = partsDay endParts \<rparr>
      in if \<not> isValid startDate1 \<or> \<not> isValid endDate1 then None
         else Some \<lparr> startDate = startDate1, endDate = endDate1 \<rparr>)"

definition parseDateRange :: "string \<Rightarrow> date \<Rightarrow> dateRange option" where
  "parseDateRange dateStr now =
     (let toks = rangeTokens dateStr; startToken = fst toks; endToken = snd toks
      in if truthy startToken \<and> truthy endToken
         then (case parseDateParts (the startToken) of
                 None \<Rightarrow> None
               | Some startParts \<Rightarrow>
                  (case parseDateParts (the endToken) of
                     None \<Rightarrow> None
                   | Some endParts \<Rightarrow> resolveRange startParts endParts now))
         else (case parseDate dateStr now of
                 None \<Rightarrow> None
               | Some single \<Rightarrow>
                   if \<not> isValid single then None
                   else Some \<lparr> startDate = single, endDate = single \<rparr>))"

subsection \<open>Durations\<close>

text \<open>
  \<open>/^(\d+)$/\<close>, then \<open>/^(\d+)(m|h)$/i\<close>; under the \<open>i\<close> flag the unit matches \<open>m\<close>, \<open>M\<close>, \<open>h\<close> and
  \<open>H\<close>, and \<open>toLowerCase\<close> sends \<open>H\<close> to \<open>h\<close>.
\<close>

definition parseDuration :: "string \<Rightarrow> enat option" where
  "parseDuration durationStr =
     (case digitsPlus durationStr of
        None \<Rightarrow> None
      | Some (g1, rest) \<Rightarrow>
          if rest = [] then Some (NumberValue g1)
          else (case oneOf ''mMhH'' rest of
                  None \<Rightarrow> None
                | Some (u, rest') \<Rightarrow>
                    if rest' \<noteq> [] then None
                    else let v = NumberValue g1;
                             unit = (if u = CHR ''H'' then CHR ''h''
                                     else if u = CHR ''M'' then CHR ''m'' else u)
                         in Some (if unit = CHR ''h'' then timesDouble v 60 else v)))"

text \<open>A non-empty string of decimal digits.\<close>

definition integerString :: "string \<Rightarrow> bool" where
  "integerString ds = (ds \<noteq> [] \<and> list_all isDigit ds)"

text \<open>A string of between \<open>lo\<close> and \<open>hi\<close> decimal digits.\<close>

definition digitString :: "nat \<Rightarrow> nat \<Rightarrow> string \<Rightarrow> bool" where
  "digitString lo hi ds = (list_all isDigit ds \<and> lo \<le> length ds \<and> length ds \<le> hi)"

section \<open>Scenarios\<close>

text \<open>The window 09:00 to 18:00 and the two busy intervals of the slot-search scenario.\<close>

definition scenarioWindow :: timeRange where
  "scenarioWindow = \<lparr> startTime = \<lparr> hour = 9, minute = 0 \<rparr>, endTime = \<lparr> hour = 18, minute = 0 \<rparr> \<rparr>"

definition scenarioBusy :: "interval list" where
  "scenarioBusy = [\<lparr> start = clock 10 0, end' = clock 11 0 \<rparr>, \<lparr> start = clock 11 30, end' = clock 12 30 \<rparr>]"

text \<open>The reference instant of the date-range scenario, 2025-12-01.\<close>

definition reference2025 :: date where
  "reference2025 = \<lparr> year = 2025, month = 12, day = 1 \<rparr>"

section \<open>Properties of the interval algebra\<close>

lemma foldl_merge_step: "foldl merge_step (acc @ [cur]) xs = acc @ merge_from cur xs"
proof (induction xs arbitrary: acc cur)
  case Nil
  then show ?case by simp
next
  case (Cons iv rest)
  show ?case
  proof (cases "start iv > end' cur")
    case True
    then have "merge_step (acc @ [cur]) iv = (acc @ [cur]) @ [iv]"
      by (simp add: merge_step_def)
    then show ?thesis using True Cons.IH [of "acc @ [cur]" iv] by simp
  next
    case False
    show ?thesis
    proof (cases "end' iv > end' cur")
      case True
      then have "merge_step (acc @ [cur]) iv = acc @ [cur\<lparr> end' := end' iv \<rparr>]"
        using False by (simp add: merge_step_def)
      then show ?thesis using True False Cons.IH [of acc "cur\<lparr> end' := end' iv \<rparr>"] by simp
    next
      case F2: False
      then have "merge_step (acc @ [cur]) iv = acc @ [cur]"
        using False by (simp add: merge_step_def)
      then show ?thesis using F2 False Cons.IH [of acc cur] by simp
    qed
  qed
qed

lemma sweep_Cons: "foldl merge_step [] (x # xs) = merge_from x xs"
  using foldl_merge_step [of "[]" x xs] by (simp add: merge_step_def)

lemma merge_from_starts:
  "sorted (map start (cur # xs)) \<Longrightarrow> y \<in> set (merge_from cur xs) \<Longrightarrow> start cur \<le> start y"
proof (induction xs arbitrary: cur)
  case Nil
  then show ?case by simp
next
  case (Cons iv rest)
  have s0: "start cur \<le> start iv" using Cons.prems(1) by simp
  have s1: "sorted (map start (iv # rest))" using Cons.prems(1) by simp
  have s2: "sorted (map start (cur # rest))" using Cons.prems(1) by auto
  have s3: "sorted (map start (cur\<lparr> end' := end' iv \<rparr> # rest))" using Cons.prems(1) by auto
  consider (new) "start iv > end' cur"
    | (ext) "\<not> start iv > end' cur" "end' iv > end' cur"
    | (skip) "\<not> start iv > end' cur" "\<not> end' iv > end' cur" by blast
  then show ?case
  proof cases
    case new
    then have "y = cur \<or> y \<in> set (merge_from iv rest)" using Cons.prems(2) by simp
    then show ?thesis using Cons.IH [OF s1] s0 by force
  next
    case ext
    then have "y \<in> set (merge_from (cur\<lparr> end' := end' iv \<rparr>) rest)" using Cons.prems(2) by simp
    then show ?thesis using Cons.IH [OF s3] by simp
  next
    case skip
    then have "y \<in> set (merge_from cur rest)" using Cons.prems(2) by simp
    then show ?thesis using Cons.IH [OF s2] by simp
  qed
qed

lemma merge_from_inside:
  "inside a b (cur # xs) \<Longrightarrow> inside a b (merge_from cur xs)"
proof (induction xs arbitrary: cur)
  case Nil
  then show ?case by simp
next
  case (Cons iv rest)
  have i1: "inside a b (iv # rest)" using Cons.prems by (simp add: inside_def)
  have i2: "inside a b (cur # rest)" using Cons.prems by (simp add: inside_def)
  have i0: "inside a b [cur]" using Cons.prems by (simp add: inside_def)
  consider (new) "start iv > end' cur"
    | (ext) "\<not> start iv > end' cur" "end' iv > end' cur"
    | (skip) "\<not> start iv > end' cur" "\<not> end' iv > end' cur" by blast
  then show ?case
  proof cases
    case new
    then show ?thesis using Cons.IH [OF i1] i0 by (simp add: inside_def)
  next
    case ext
    have i3: "inside a b (cur\<lparr> end' := end' iv \<rparr> # rest)"
      using Cons.prems ext by (simp add: inside_def)
    show ?thesis using ext Cons.IH [OF i3] by simp
  next
    case skip
    then show ?thesis using Cons.IH [OF i2] by simp
  qed
qed

lemma merge_from_separated:
  "sorted (map start (cur # xs)) \<Longrightarrow> separated (merge_from cur xs)"
proof (induction xs arbitrary: cur)
  case Nil
  then show ?case by (simp add: separated_def)
next
  case (Cons iv rest)
  show ?case
  proof (cases "start iv > end' cur")
    case True
    have s: "sorted (map start (iv # rest))" using Cons.prems by simp
    have "\<And>y. y \<in> set (merge_from iv rest) \<Longrightarrow> end' cur < start y"
      using merge_from_starts [OF s] True by fastforce
    then show ?thesis using True Cons.IH [OF s] by (simp add: separated_def)
  next
    case False
    have s1: "sorted (map start (cur # rest))" using Cons.prems by auto
    have s2: "sorted (map start (cur\<lparr> end' := end' iv \<rparr> # rest))" using Cons.prems by auto
    show ?thesis using False Cons.IH [OF s1] Cons.IH [OF s2] by simp
  qed
qed

lemma merge_from_fixed: "separated (x # xs) \<Longrightarrow> merge_from x xs = x # xs"
  by (induction xs arbitrary: x) (simp_all add: separated_def)

lemma sweep_inside: "inside a b xs \<Longrightarrow> inside a b (foldl merge_step [] xs)"
proof (cases xs)
  case Nil
  then show ?thesis by (simp add: inside_def)
next
  case (Cons x r)
  assume "inside a b xs"
  then show ?thesis using Cons merge_from_inside [of a b x r] by (simp add: sweep_Cons del: foldl_Cons)
qed

lemma sweep_separated: "sorted (map start xs) \<Longrightarrow> separated (foldl merge_step [] xs)"
proof (cases xs)
  case Nil
  then show ?thesis by (simp add: separated_def)
next
  case (Cons x r)
  assume "sorted (map start xs)"
  then show ?thesis using Cons merge_from_separated [of x r] by (simp add: sweep_Cons del: foldl_Cons)
qed

lemma sweep_fixed: "separated xs \<Longrightarrow> foldl merge_step [] xs = xs"
  by (cases xs) (simp_all add: sweep_Cons merge_from_fixed del: foldl_Cons)

lemma clamped_inside:
  "inside a b (filter (\<lambda>iv. end' iv > start iv) (map (clamp a b) xs))"
  by (auto simp: inside_def clamp_def)

lemma merge_inside: "inside a b (mergeBusyIntervals xs a b)"
  unfolding mergeBusyIntervals_def Let_def
proof (rule sweep_inside)
  show "inside a b (sort_key start (filter (\<lambda>iv. end' iv > start iv) (map (clamp a b) xs)))"
    using clamped_inside [of a b xs] by (simp add: inside_def)
qed

lemma merge_separated: "separated (mergeBusyIntervals xs a b)"
  unfolding mergeBusyIntervals_def Let_def
  by (rule sweep_separated) simp

lemma clamp_id: "a \<le> start x \<Longrightarrow> end' x \<le> b \<Longrightarrow> clamp a b x = x"
  by (simp add: clamp_def)

lemma separated_sorted:
  assumes "separated xs" "inside a b xs"
  shows "sorted (map start xs)"
proof -
  have "sorted_wrt (\<lambda>x y. start x \<le> start y) xs"
  proof (rule sorted_wrt_mono_rel [of xs "\<lambda>x y. end' x < start y"])
    fix x y assume "x \<in> set xs" "y \<in> set xs" "end' x < start y"
    then show "start x \<le> start y" using assms(2) by (fastforce simp: inside_def)
  next
    show "sorted_wrt (\<lambda>x y. end' x < start y) xs" using assms(1) by (simp add: separated_def)
  qed
  then show ?thesis by (simp add: sorted_map)
qed

lemma merge_fixed:
  assumes "separated xs" "inside a b xs"
  shows "mergeBusyIntervals xs a b = xs"
proof -
  have m: "map (clamp a b) xs = xs"
    using assms(2) by (intro map_idI clamp_id) (auto simp: inside_def)
  have f: "filter (\<lambda>iv. end' iv > start iv) xs = xs"
    using assms(2) by (intro filter_True) (auto simp: inside_def)
  have s: "sort_key start xs = xs"
    using separated_sorted [OF assms] by (rule sort_key_id_if_sorted)
  show ?thesis
    by (simp add: mergeBusyIntervals_def m f s sweep_fixed [OF assms(1)])
qed

lemma merge_example:
  "mergeBusyIntervals [\<lparr> start = 40, end' = 60 \<rparr>, \<lparr> start = -5, end' = 20 \<rparr>, \<lparr> start = 50, end' = 70 \<rparr>] 0 100
     = [\<lparr> start = 0, end' = 20 \<rparr>, \<lparr> start = 40, end' = 70 \<rparr>]"
  by (simp add: mergeBusyIntervals_def clamp_def merge_step_def)

text \<open>
  Claim C2. \<open>mergeBusyIntervals\<close> is idempotent for every list of intervals and every pair of
  bounds.
\<close>

theorem mergeBusyIntervals_idempotent:
  "mergeBusyIntervals (mergeBusyIntervals x a b) a b = mergeBusyIntervals x a b"
  by (rule merge_fixed [OF merge_separated merge_inside])

text \<open>Merging the merged output of three overlapping and overhanging inputs changes nothing.\<close>

theorem mergeBusyIntervals_idempotent_witness:
  "mergeBusyIntervals [\<lparr> start = 0, end' = 20 \<rparr>, \<lparr> start = 40, end' = 70 \<rparr>] 0 100
     = [\<lparr> start = 0, end' = 20 \<rparr>, \<lparr> start = 40, end' = 70 \<rparr>]"
  using mergeBusyIntervals_idempotent
    [of "[\<lparr> start = 40, end' = 60 \<rparr>, \<lparr> start = -5, end' = 20 \<rparr>, \<lparr> start = 50, end' = 70 \<rparr>]" 0 100]
  unfolding merge_example .

text \<open>
  Claim C3. Intervals that exactly touch are merged into one: the sweep extends the last merged
  interval when the next one starts at its end; two touching intervals inside the range come
  out as the single interval that spans both; and \<open>[10:00, 11:00)\<close> with \<open>[11:00, 12:00)\<close> in
  the range 09:00 to 18:00 gives \<open>[10:00, 12:00)\<close>.
\<close>

theorem touching_intervals_merged:
  "(merged \<noteq> [] \<and> start iv = end' (last merged) \<and> start iv < end' iv \<longrightarrow>
      merge_step merged iv = butlast merged @ [(last merged)\<lparr> end' := end' iv \<rparr>])
   \<and> (a \<le> s \<and> s < m \<and> m < e \<and> e \<le> b \<longrightarrow>
      mergeBusyIntervals [\<lparr> start = s, end' = m \<rparr>, \<lparr> start = m, end' = e \<rparr>] a b
        = [\<lparr> start = s, end' = e \<rparr>])
   \<and> mergeBusyIntervals
        [\<lparr> start = clock 10 0, end' = clock 11 0 \<rparr>, \<lparr> start = clock 11 0, end' = clock 12 0 \<rparr>]
        (clock 9 0) (clock 18 0)
        = [\<lparr> start = clock 10 0, end' = clock 12 0 \<rparr>]"
proof (intro conjI impI)
  assume "merged \<noteq> [] \<and> start iv = end' (last merged) \<and> start iv < end' iv"
  then show "merge_step merged iv = butlast merged @ [(last merged)\<lparr> end' := end' iv \<rparr>]"
    by (simp add: merge_step_def)
next
  assume "a \<le> s \<and> s < m \<and> m < e \<and> e \<le> b"
  then show "mergeBusyIntervals [\<lparr> start = s, end' = m \<rparr>, \<lparr> start = m, end' = e \<rparr>] a b
        = [\<lparr> start = s, end' = e \<rparr>]"
    by (simp add: mergeBusyIntervals_def clamp_def merge_step_def)
next
  show "mergeBusyIntervals
        [\<lparr> start = clock 10 0, end' = clock 11 0 \<rparr>, \<lparr> start = clock 11 0, end' = clock 12 0 \<rparr>]
        (clock 9 0) (clock 18 0)
        = [\<lparr> start = clock 10 0, end' = clock 12 0 \<rparr>]"
    by (simp add: mergeBusyIntervals_def clamp_def merge_step_def clock_def)
qed

text \<open>The touching case at small numbers.\<close>

theorem touching_intervals_merged_witness:
  "merge_step [\<lparr> start = 0, end' = 10 \<rparr>] \<lparr> start = 10, end' = 20 \<rparr> = [\<lparr> start = 0, end' = 20 \<rparr>]
   \<and> mergeBusyIntervals [\<lparr> start = 5, end' = 10 \<rparr>, \<lparr> start = 10, end' = 20 \<rparr>] 0 30
        = [\<lparr> start = 5, end' = 20 \<rparr>]"
  using touching_intervals_merged
    [of "[\<lparr> start = 0, end' = 10 \<rparr>]" "\<lparr> start = 10, end' = 20 \<rparr>" 0 5 10 20 30]
  by simp

lemma free_fold:
  "(let st = foldl free_step (free, c) busy
    in if snd st < e then fst st @ [\<lparr> start = snd st, end' = e \<rparr>] else fst st)
   = free @ free_from c busy e"
  by (induction busy arbitrary: free c) (simp_all add: free_step_def Let_def)

lemma buildFree_eq:
  "a < b \<or> busy \<noteq> [] \<Longrightarrow> buildFreeIntervals a b busy = free_from a busy b"
  using free_fold [of "[]" a busy b]
  by (cases busy) (simp_all add: buildFreeIntervals_def Let_def)

lemma chain_cover:
  "chain c busy b \<Longrightarrow> cnt t (busy @ free_from c busy b) = (if c \<le> t \<and> t < b then 1 else 0)"
proof (induction busy arbitrary: c)
  case Nil
  then show ?case by (simp add: cnt_def covers_def)
next
  case (Cons iv rest)
  have ih: "cnt t (rest @ free_from (end' iv) rest b) = (if end' iv \<le> t \<and> t < b then 1 else 0)"
    using Cons by simp
  have c1: "c \<le> start iv" "start iv < end' iv" "end' iv \<le> b" using Cons.prems by simp_all
  have split: "cnt t ((iv # rest) @ free_from c (iv # rest) b)
      = cnt t [iv] + cnt t (if start iv > c then [\<lparr> start = c, end' = start iv \<rparr>] else [])
        + cnt t (rest @ free_from (end' iv) rest b)"
    using c1 by (simp add: cnt_def)
  show ?case unfolding split ih using c1 by (simp add: cnt_def covers_def)
qed

lemma chain_of_separated:
  "separated xs \<Longrightarrow> inside c b xs \<Longrightarrow> chain c xs b"
proof (induction xs arbitrary: c)
  case Nil
  then show ?case by simp
next
  case (Cons x r)
  have "separated r" using Cons.prems(1) by (simp add: separated_def)
  moreover have "inside (end' x) b r"
    using Cons.prems by (auto simp: separated_def inside_def)
  ultimately have "chain (end' x) r b" by (rule Cons.IH)
  then show ?case using Cons.prems(2) by (simp add: inside_def)
qed

lemma two_hits:
  assumes "i < j" "j < length xs" "P (xs ! i)" "P (xs ! j)"
  shows "2 \<le> length (filter P xs)"
proof -
  have a: "xs ! i \<in> set (take j xs)" using assms(1,2) by (auto simp: in_set_conv_nth)
  have b: "xs ! j \<in> set (drop j xs)" using assms(2) by (auto simp: in_set_conv_nth intro: exI [of _ 0])
  have "filter P (take j xs) \<noteq> []" using a assms(3) by (auto simp: filter_empty_conv)
  moreover have "filter P (drop j xs) \<noteq> []" using b assms(4) by (auto simp: filter_empty_conv)
  ultimately have "2 \<le> length (filter P (take j xs)) + length (filter P (drop j xs))"
    by (cases "filter P (take j xs)"; cases "filter P (drop j xs)") simp_all
  moreover have "filter P xs = filter P (take j xs) @ filter P (drop j xs)"
    by (metis append_take_drop_id filter_append)
  ultimately show ?thesis by simp
qed

text \<open>
  Claim C1. For every \<open>rangeStart < rangeEnd\<close> and every list of intervals, the merged busy
  intervals followed by the free intervals built from them partition the half-open range
  \<open>[rangeStart, rangeEnd)\<close>: any two emitted intervals are disjoint, and an instant lies in
  exactly one emitted interval when it is in the range and in none otherwise.
\<close>

theorem merged_and_free_partition_range:
  assumes "rangeStart < rangeEnd"
  shows "let mergedBusy = mergeBusyIntervals intervals rangeStart rangeEnd;
             freeIntervals = buildFreeIntervals rangeStart rangeEnd mergedBusy;
             emitted = mergedBusy @ freeIntervals
         in (\<forall>i j. i < j \<and> j < length emitted \<longrightarrow>
               {start (emitted ! i)..<end' (emitted ! i)} \<inter> {start (emitted ! j)..<end' (emitted ! j)} = {})
          \<and> (\<forall>t. length (filter (covers t) emitted)
                 = (if rangeStart \<le> t \<and> t < rangeEnd then 1 else 0))"
proof -
  define m where "m = mergeBusyIntervals intervals rangeStart rangeEnd"
  define out where "out = m @ buildFreeIntervals rangeStart rangeEnd m"
  have ch: "chain rangeStart m rangeEnd"
    unfolding m_def by (rule chain_of_separated [OF merge_separated merge_inside])
  have out: "out = m @ free_from rangeStart m rangeEnd"
    using assms by (simp add: out_def buildFree_eq)
  have cover: "length (filter (covers t) out) = (if rangeStart \<le> t \<and> t < rangeEnd then 1 else 0)" for t
    using chain_cover [OF ch, of t] by (simp add: out cnt_def)
  have disj: "{start (out ! i)..<end' (out ! i)} \<inter> {start (out ! j)..<end' (out ! j)} = {}"
    if "i < j \<and> j < length out" for i j
  proof (rule ccontr)
    assume "\<not> ?thesis"
    then obtain t where "t \<in> {start (out ! i)..<end' (out ! i)}" "t \<in> {start (out ! j)..<end' (out ! j)}"
      by blast
    then have "covers t (out ! i)" "covers t (out ! j)"
      by (simp_all add: covers_def)
    then have "2 \<le> length (filter (covers t) out)"
      using two_hits [of i j out "covers t"] that by simp
    then show False using cover [of t] by (simp split: if_splits)
  qed
  show ?thesis
    unfolding Let_def m_def [symmetric] out_def [symmetric] using cover disj by blast
qed

text \<open>The partition law at the range \<open>[0, 100)\<close> with three overlapping and overhanging inputs.\<close>

theorem merged_and_free_partition_range_witness:
  "(0::int) < 100 \<and>
   mergeBusyIntervals [\<lparr> start = 40, end' = 60 \<rparr>, \<lparr> start = -5, end' = 20 \<rparr>, \<lparr> start = 50, end' = 70 \<rparr>] 0 100
     = [\<lparr> start = 0, end' = 20 \<rparr>, \<lparr> start = 40, end' = 70 \<rparr>] \<and>
   buildFreeIntervals 0 100 [\<lparr> start = 0, end' = 20 \<rparr>, \<lparr> start = 40, end' = 70 \<rparr>]
     = [\<lparr> start = 20, end' = 40 \<rparr>, \<lparr> start = 70, end' = 100 \<rparr>] \<and>
   (\<forall>t. length (filter (covers t)
          [\<lparr> start = 0, end' = 20 \<rparr>, \<lparr> start = 40, end' = 70 \<rparr>,
           \<lparr> start = 20, end' = 40 \<rparr>, \<lparr> start = 70, end' = 100 \<rparr>])
        = (if 0 \<le> t \<and> t < 100 then 1 else 0))"
proof -
  note m = merge_example
  have f: "buildFreeIntervals 0 100 [\<lparr> start = 0, end' = 20 \<rparr>, \<lparr> start = 40, end' = 70 \<rparr>]
     = [\<lparr> start = 20, end' = 40 \<rparr>, \<lparr> start = 70, end' = 100 \<rparr>]"
    by (simp add: buildFreeIntervals_def free_step_def)
  have h: "(0::int) < 100" by simp
  show ?thesis
    using merged_and_free_partition_range [OF h, of "[\<lparr> start = 40, end' = 60 \<rparr>, \<lparr> start = -5, end' = 20 \<rparr>, \<lparr> start = 50, end' = 70 \<rparr>]"]
    unfolding m f Let_def by simp
qed

section \<open>Properties of the slot search and the formatter\<close>

lemma slot_scenario_60: "findFirstAvailableSlot [0] scenarioWindow 60 scenarioBusy = Some (clock 9 0)"
  by (simp add: scenarioWindow_def scenarioBusy_def clock_def setHourMinute_def mergeBusyIntervals_def clamp_def
      merge_step_def buildFreeIntervals_def free_step_def diffMinutes_def)

lemma slot_scenario_90: "findFirstAvailableSlot [0] scenarioWindow 90 scenarioBusy = Some (clock 12 30)"
  by (simp add: scenarioWindow_def scenarioBusy_def clock_def setHourMinute_def mergeBusyIntervals_def clamp_def
      merge_step_def buildFreeIntervals_def free_step_def diffMinutes_def)

lemma scanFree_find: "scanFree xs d = map_option start (find (qualifies d) xs)"
  by (induction xs) (simp_all add: qualifies_def)

lemma find_append:
  "find P (xs @ ys) = (case find P xs of Some x \<Rightarrow> Some x | None \<Rightarrow> find P ys)"
  by (induction xs) simp_all

lemma findFirst_refines:
  "findFirstAvailableSlot days tr d busy = firstQualifyingStart days tr d busy"
proof (induction days)
  case Nil
  then show ?case by (simp add: firstQualifyingStart_def)
next
  case (Cons day days)
  then show ?case
    by (simp add: firstQualifyingStart_def dayFreeIntervals_def Let_def scanFree_find find_append
        split: option.splits)
qed

lemma find_first_split:
  "(find P xs = Some x) = (\<exists>pre post. xs = pre @ x # post \<and> P x \<and> (\<forall>y \<in> set pre. \<not> P y))"
proof (induction xs)
  case Nil
  then show ?case by simp
next
  case (Cons a xs)
  show ?case
  proof (cases "P a")
    case True
    have "(\<exists>pre post. a # xs = pre @ x # post \<and> P x \<and> (\<forall>y \<in> set pre. \<not> P y)) = (a = x)"
    proof
      assume "\<exists>pre post. a # xs = pre @ x # post \<and> P x \<and> (\<forall>y \<in> set pre. \<not> P y)"
      then obtain pre post where h: "a # xs = pre @ x # post" "\<forall>y \<in> set pre. \<not> P y" by blast
      show "a = x" using h True by (cases pre) auto
    next
      assume "a = x"
      then have "a # xs = [] @ x # xs \<and> P x \<and> (\<forall>y \<in> set []. \<not> P y)" using True by simp
      then show "\<exists>pre post. a # xs = pre @ x # post \<and> P x \<and> (\<forall>y \<in> set pre. \<not> P y)" by blast
    qed
    then show ?thesis using True by simp
  next
    case False
    have "(\<exists>pre post. a # xs = pre @ x # post \<and> P x \<and> (\<forall>y \<in> set pre. \<not> P y))
        = (\<exists>pre post. xs = pre @ x # post \<and> P x \<and> (\<forall>y \<in> set pre. \<not> P y))"
    proof
      assume "\<exists>pre post. a # xs = pre @ x # post \<and> P x \<and> (\<forall>y \<in> set pre. \<not> P y)"
      then obtain pre post where h: "a # xs = pre @ x # post" "P x" "\<forall>y \<in> set pre. \<not> P y" by blast
      then obtain pre' where "pre = a # pre'" using False by (cases pre) auto
      then have "xs = pre' @ x # post \<and> P x \<and> (\<forall>y \<in> set pre'. \<not> P y)" using h by simp
      then show "\<exists>pre post. xs = pre @ x # post \<and> P x \<and> (\<forall>y \<in> set pre. \<not> P y)" by blast
    next
      assume "\<exists>pre post. xs = pre @ x # post \<and> P x \<and> (\<forall>y \<in> set pre. \<not> P y)"
      then obtain pre post where h: "xs = pre @ x # post" "P x" "\<forall>y \<in> set pre. \<not> P y" by blast
      then have "a # xs = (a # pre) @ x # post \<and> P x \<and> (\<forall>y \<in> set (a # pre). \<not> P y)"
        using False by simp
      then show "\<exists>pre post. a # xs = pre @ x # post \<and> P x \<and> (\<forall>y \<in> set pre. \<not> P y)" by blast
    qed
    then show ?thesis using False Cons.IH by simp
  qed
qed

text \<open>
  Claim C4. \<open>findFirstAvailableSlot\<close> returns the start of the first free interval, in day
  order and then interval order, whose length in minutes is at least \<open>durationMinutes\<close>: its
  result is that of the search worded in the specification, a returned slot starts a
  qualifying free interval that no qualifying one precedes, and the result is null exactly
  when no free interval of any day qualifies. With the window 09:00 to 18:00 and busy
  \<open>[10:00, 11:00)\<close> and \<open>[11:30, 12:30)\<close>, duration 60 gives 09:00 and duration 90 gives 12:30.
\<close>

theorem findFirstAvailableSlot_first_fit:
  "findFirstAvailableSlot days tr d busy = firstQualifyingStart days tr d busy
   \<and> (\<forall>slot. findFirstAvailableSlot days tr d busy = Some slot \<longrightarrow>
         (\<exists>pre iv post.
            concat (map (\<lambda>day. dayFreeIntervals day tr busy) days) = pre @ iv # post
            \<and> qualifies d iv \<and> (\<forall>x \<in> set pre. \<not> qualifies d x) \<and> slot = start iv))
   \<and> ((findFirstAvailableSlot days tr d busy = None)
        = (\<forall>day \<in> set days. \<forall>iv \<in> set (dayFreeIntervals day tr busy). \<not> qualifies d iv))
   \<and> findFirstAvailableSlot [0] scenarioWindow 60 scenarioBusy = Some (clock 9 0)
   \<and> findFirstAvailableSlot [0] scenarioWindow 90 scenarioBusy = Some (clock 12 30)"
proof (intro conjI allI impI)
  show r: "findFirstAvailableSlot days tr d busy = firstQualifyingStart days tr d busy"
    by (rule findFirst_refines)
  show "\<exists>pre iv post.
            concat (map (\<lambda>day. dayFreeIntervals day tr busy) days) = pre @ iv # post
            \<and> qualifies d iv \<and> (\<forall>x \<in> set pre. \<not> qualifies d x) \<and> slot = start iv"
    if "findFirstAvailableSlot days tr d busy = Some slot" for slot
  proof -
    have "map_option start (find (qualifies d) (concat (map (\<lambda>day. dayFreeIntervals day tr busy) days)))
        = Some slot"
      using that r by (simp add: firstQualifyingStart_def)
    then obtain iv where f: "find (qualifies d) (concat (map (\<lambda>day. dayFreeIntervals day tr busy) days)) = Some iv"
      and s: "slot = start iv"
      by (cases "find (qualifies d) (concat (map (\<lambda>day. dayFreeIntervals day tr busy) days))") auto
    show ?thesis using f s unfolding find_first_split by blast
  qed
  show "(findFirstAvailableSlot days tr d busy = None)
        = (\<forall>day \<in> set days. \<forall>iv \<in> set (dayFreeIntervals day tr busy). \<not> qualifies d iv)"
    unfolding r firstQualifyingStart_def by (auto simp: find_None_iff)
  show "findFirstAvailableSlot [0] scenarioWindow 60 scenarioBusy = Some (clock 9 0)" by (rule slot_scenario_60)
  show "findFirstAvailableSlot [0] scenarioWindow 90 scenarioBusy = Some (clock 12 30)" by (rule slot_scenario_90)
qed

lemma dayFree_scenario:
  "dayFreeIntervals 0 scenarioWindow scenarioBusy =
     [\<lparr> start = clock 9 0, end' = clock 10 0 \<rparr>, \<lparr> start = clock 11 0, end' = clock 11 30 \<rparr>,
      \<lparr> start = clock 12 30, end' = clock 18 0 \<rparr>]"
  by (simp add: dayFreeIntervals_def scenarioWindow_def scenarioBusy_def clock_def setHourMinute_def
      mergeBusyIntervals_def clamp_def merge_step_def buildFreeIntervals_def free_step_def)

text \<open>The scenario at duration 90, and at duration 600, which no free interval reaches.\<close>

theorem findFirstAvailableSlot_first_fit_witness:
  "(\<exists>pre iv post.
      [\<lparr> start = clock 9 0, end' = clock 10 0 \<rparr>, \<lparr> start = clock 11 0, end' = clock 11 30 \<rparr>,
       \<lparr> start = clock 12 30, end' = clock 18 0 \<rparr>] = pre @ iv # post
      \<and> qualifies 90 iv \<and> (\<forall>x \<in> set pre. \<not> qualifies 90 x) \<and> clock 12 30 = start iv)
   \<and> findFirstAvailableSlot [0] scenarioWindow 600 scenarioBusy = None"
proof -
  have q: "\<forall>day \<in> set [0]. \<forall>iv \<in> set (dayFreeIntervals day scenarioWindow scenarioBusy). \<not> qualifies 600 iv"
    by (simp add: dayFree_scenario qualifies_def diffMinutes_def clock_def)
  have e: "findFirstAvailableSlot [0] scenarioWindow 90 scenarioBusy = Some (clock 12 30)"
    by (rule slot_scenario_90)
  have c: "concat (map (\<lambda>day. dayFreeIntervals day scenarioWindow scenarioBusy) [0])
      = [\<lparr> start = clock 9 0, end' = clock 10 0 \<rparr>, \<lparr> start = clock 11 0, end' = clock 11 30 \<rparr>,
         \<lparr> start = clock 12 30, end' = clock 18 0 \<rparr>]"
    by (simp add: dayFree_scenario)
  note t90 = findFirstAvailableSlot_first_fit [of "[0]" scenarioWindow 90 scenarioBusy]
  note t600 = findFirstAvailableSlot_first_fit [of "[0]" scenarioWindow 600 scenarioBusy]
  have a: "\<exists>pre iv post.
      concat (map (\<lambda>day. dayFreeIntervals day scenarioWindow scenarioBusy) [0]) = pre @ iv # post
      \<and> qualifies 90 iv \<and> (\<forall>x \<in> set pre. \<not> qualifies 90 x) \<and> clock 12 30 = start iv"
    by (rule t90 [THEN conjunct2, THEN conjunct1, rule_format, OF e])
  have b: "findFirstAvailableSlot [0] scenarioWindow 600 scenarioBusy = None"
    by (rule iffD2 [OF t600 [THEN conjunct2, THEN conjunct2, THEN conjunct1] q])
  show ?thesis using a [unfolded c] b by (intro conjI)
qed

lemma digitChar_isDigit: "0 \<le> n \<Longrightarrow> n < 10 \<Longrightarrow> isDigit (digitChar n)"
  unfolding isDigit_def digitChar_def by (rule nth_mem) simp

lemma twoDigits_digits:
  "0 \<le> n \<Longrightarrow> n < 100 \<Longrightarrow> \<exists>a b. twoDigits n = [a, b] \<and> isDigit a \<and> isDigit b"
  by (simp add: twoDigits_def digitChar_isDigit)

lemma toFormatHHmm_chars:
  "\<exists>a b c d. toFormatHHmm t = [a, b, CHR '':'', c, d] \<and> isDigit a \<and> isDigit b \<and> isDigit c \<and> isDigit d"
proof -
  have hb: "0 \<le> (t div 3600000) mod 24" "(t div 3600000) mod 24 < 100"
    using pos_mod_bound [of 24 "t div 3600000"] by simp_all
  have mb: "0 \<le> (t div 60000) mod 60" "(t div 60000) mod 60 < 100"
    using pos_mod_bound [of 60 "t div 60000"] by simp_all
  obtain a b where h: "twoDigits ((t div 3600000) mod 24) = [a, b]" "isDigit a" "isDigit b"
    using twoDigits_digits [OF hb] by blast
  obtain c d where m: "twoDigits ((t div 60000) mod 60) = [c, d]" "isDigit c" "isDigit d"
    using twoDigits_digits [OF mb] by blast
  show ?thesis by (simp add: toFormatHHmm_def h m)
qed

lemma toFormatHHmm_shape: "shapeHHMM (toFormatHHmm t)"
proof -
  obtain a b c d where "toFormatHHmm t = [a, b, CHR '':'', c, d]"
    "isDigit a" "isDigit b" "isDigit c" "isDigit d"
    using toFormatHHmm_chars [of t] by blast
  then show ?thesis by (simp add: shapeHHMM_def)
qed

lemma isDigit_not_newline: "isDigit c \<Longrightarrow> c \<noteq> CHR 0x0A"
  by (auto simp: isDigit_def)

lemma toFormatHHmm_no_newline: "CHR 0x0A \<notin> set (toFormatHHmm t)"
proof -
  obtain a b c d where "toFormatHHmm t = [a, b, CHR '':'', c, d]"
    "isDigit a" "isDigit b" "isDigit c" "isDigit d"
    using toFormatHHmm_chars [of t] by blast
  then show ?thesis using isDigit_not_newline by auto
qed

lemma intervalLine_no_newline: "CHR 0x0A \<notin> set (intervalLine iv)"
  by (simp add: intervalLine_def toFormatHHmm_no_newline)

lemma filter_absent: "c \<notin> set l \<Longrightarrow> filter (\<lambda>x. x = c) l = []"
  by (induction l) auto

lemma newlines_join:
  "\<forall>l \<in> set ls. CHR 0x0A \<notin> set l \<Longrightarrow>
     length (filter (\<lambda>c. c = CHR 0x0A) (join [CHR 0x0A] ls)) = length ls - 1"
proof (induction "[CHR 0x0A]" ls rule: join.induct)
  case 1
  then show ?case by simp
next
  case (2 x)
  then show ?case by (simp add: filter_absent)
next
  case (3 x y rest)
  have "filter (\<lambda>c. c = CHR 0x0A) x = []" using 3(2) by (simp add: filter_absent)
  then show ?case using 3 by simp
qed

text \<open>
  Claim C7, as stated: the formatter would return the literal string \<open>none\<close> on the empty list.
  It returns the Japanese word instead.
\<close>

theorem formatIntervalsShort_empty_is_not_none: "formatIntervalsShort [] \<noteq> ''none''"
  by (simp add: formatIntervalsShort_def nashi_def)

text \<open>
  Claim C7, amended. On the empty list the formatter returns the literal sentinel of the source,
  the Japanese word for \<open>none\<close>; on a non-empty list it returns one line per interval, joined by
  line feeds, each line being the start as \<open>HH:MM\<close>, the three characters space, hyphen, space,
  and the end as \<open>HH:MM\<close>.
\<close>

theorem formatIntervalsShort_renders:
  "formatIntervalsShort [] = nashi
   \<and> (intervals \<noteq> [] \<longrightarrow>
        formatIntervalsShort intervals = join [CHR 0x0A] (map intervalLine intervals)
        \<and> length (filter (\<lambda>c. c = CHR 0x0A) (formatIntervalsShort intervals)) + 1 = length intervals
        \<and> (\<forall>iv \<in> set intervals.
              intervalLine iv = toFormatHHmm (start iv) @ '' - '' @ toFormatHHmm (end' iv)
              \<and> shapeHHMM (toFormatHHmm (start iv)) \<and> shapeHHMM (toFormatHHmm (end' iv))))"
proof (intro conjI impI ballI)
  show "formatIntervalsShort [] = nashi" by (simp add: formatIntervalsShort_def)
next
  assume ne: "intervals \<noteq> []"
  show eq: "formatIntervalsShort intervals = join [CHR 0x0A] (map intervalLine intervals)"
    using ne by (simp add: formatIntervalsShort_def)
  have "length (filter (\<lambda>c. c = CHR 0x0A) (join [CHR 0x0A] (map intervalLine intervals)))
      = length (map intervalLine intervals) - 1"
    by (rule newlines_join) (simp add: intervalLine_no_newline)
  then show "length (filter (\<lambda>c. c = CHR 0x0A) (formatIntervalsShort intervals)) + 1 = length intervals"
    using ne unfolding eq by (cases intervals) simp_all
next
  fix iv
  show "intervalLine iv = toFormatHHmm (start iv) @ '' - '' @ toFormatHHmm (end' iv)"
    by (simp add: intervalLine_def)
  show "shapeHHMM (toFormatHHmm (start iv))" by (rule toFormatHHmm_shape)
  show "shapeHHMM (toFormatHHmm (end' iv))" by (rule toFormatHHmm_shape)
qed

text \<open>Two intervals render as two lines.\<close>

theorem formatIntervalsShort_renders_witness:
  "formatIntervalsShort [\<lparr> start = clock 9 0, end' = clock 10 0 \<rparr>, \<lparr> start = clock 12 30, end' = clock 18 5 \<rparr>]
     = ''09:00 - 10:00'' @ [CHR 0x0A] @ ''12:30 - 18:05''
   \<and> shapeHHMM (toFormatHHmm (clock 18 5))"
proof -
  have j: "join [CHR 0x0A] (map intervalLine [\<lparr> start = clock 9 0, end' = clock 10 0 \<rparr>, \<lparr> start = clock 12 30, end' = clock 18 5 \<rparr>])
      = ''09:00 - 10:00'' @ [CHR 0x0A] @ ''12:30 - 18:05''"
    by (simp add: intervalLine_def toFormatHHmm_def twoDigits_def digitChar_def clock_def)
  show ?thesis
    using formatIntervalsShort_renders
      [of "[\<lparr> start = clock 9 0, end' = clock 10 0 \<rparr>, \<lparr> start = clock 12 30, end' = clock 18 5 \<rparr>]"]
    unfolding j by simp
qed

section \<open>Properties of the expression parser\<close>

lemmas parser_defs =
  parseDateParts_def matchYmd_def matchMd_def matchMdRange_def digitRun_def digitsPlus_def
  oneOf_def isDigit_def Number_def digitVal_def

lemmas date_defs = isValid_def daysInMonth_def isLeapYear_def dateTimeLess_def earlier_def

lemma parts_12_30: "parseDateParts ''12/30'' = Some \<lparr> partsYear = None, partsMonth = 12, partsDay = 30, hasYear = False \<rparr>"
  by (simp add: parser_defs)

lemma parts_1_3: "parseDateParts ''1/3'' = Some \<lparr> partsYear = None, partsMonth = 1, partsDay = 3, hasYear = False \<rparr>"
  by (simp add: parser_defs)

lemma tokens_scenario: "rangeTokens ''12/30~1/3'' = (Some ''12/30'', Some ''1/3'')"
  by (simp add: rangeTokens_def split_def pieces_def)

lemma range_scenario:
  "parseDateRange ''12/30~1/3'' reference2025
     = Some \<lparr> startDate = \<lparr> year = 2025, month = 12, day = 30 \<rparr>,
              endDate = \<lparr> year = 2026, month = 1, day = 3 \<rparr> \<rparr>"
  by (simp add: parseDateRange_def tokens_scenario truthy_def parts_12_30 parts_1_3 resolveRange_def
      date_defs reference2025_def Let_def)

lemmas enat_numerals = numeral_eq_enat zero_enat_def one_enat_def

lemmas duration_defs =
  parseDuration_def digitsPlus_def oneOf_def isDigit_def NumberValue_def decimalValue_def
  timesDouble_def

lemma roundToDouble_exact: "n < 2 ^ 53 \<Longrightarrow> roundToDouble n = enat n"
  by (simp add: roundToDouble_def binaryExponent.simps [of n] Let_def)

lemma parseDuration_examples:
  "parseDuration ''45'' = Some 45" "parseDuration ''30m'' = Some 30"
  "parseDuration ''2h'' = Some 120" "parseDuration ''abc'' = None"
  by (simp_all add: duration_defs roundToDouble_exact enat_numerals)

text \<open>
  Claim C10. \<open>parseDuration\<close> returns 0, not null, for each of \<open>0\<close>, \<open>0m\<close> and \<open>0h\<close>.
\<close>

theorem parseDuration_accepts_zero:
  "parseDuration ''0'' = Some 0 \<and> parseDuration ''0m'' = Some 0 \<and> parseDuration ''0h'' = Some 0"
  by (simp add: duration_defs roundToDouble_exact enat_numerals)

lemma feb30_invalid: "\<not> isValid \<lparr> year = y, month = 2, day = 30 \<rparr>"
  by (simp add: isValid_def daysInMonth_def)

text \<open>
  Claim C9. For an input of the shape \<open>M/D\<close> or \<open>YYYY-M-D\<close> that denotes no calendar date,
  here \<open>2/30\<close> and \<open>2025-2-30\<close>, \<open>parseDate\<close> returns a value and not null, whatever the
  reference instant; the value is not a valid date.
\<close>

theorem parseDate_accepts_nonexistent_date:
  "parseDate ''2/30'' now = Some \<lparr> year = year now, month = 2, day = 30 \<rparr>
   \<and> \<not> isValid \<lparr> year = year now, month = 2, day = 30 \<rparr>
   \<and> parseDate ''2025-2-30'' now = Some \<lparr> year = 2025, month = 2, day = 30 \<rparr>
   \<and> \<not> isValid \<lparr> year = 2025, month = 2, day = 30 \<rparr>"
proof -
  have p1: "parseDateParts ''2/30'' = Some \<lparr> partsYear = None, partsMonth = 2, partsDay = 30, hasYear = False \<rparr>"
    by (simp add: parser_defs)
  have p2: "parseDateParts ''2025-2-30'' = Some \<lparr> partsYear = Some 2025, partsMonth = 2, partsDay = 30, hasYear = True \<rparr>"
    by (simp add: parser_defs)
  show ?thesis
    by (simp add: parseDate_def p1 p2 feb30_invalid)
qed

text \<open>The same seen from 2025-12-01.\<close>

theorem parseDate_accepts_nonexistent_date_witness:
  "parseDate ''2/30'' reference2025 = Some \<lparr> year = 2025, month = 2, day = 30 \<rparr>
   \<and> \<not> isValid \<lparr> year = 2025, month = 2, day = 30 \<rparr>"
  using parseDate_accepts_nonexistent_date [of reference2025]
  by (simp add: reference2025_def)

lemma digitsPlus_all:
  "integerString ds \<Longrightarrow> digitsPlus ds = Some (ds, [])"
  by (cases ds) (auto simp: integerString_def digitsPlus_def list_all_iff)

lemma digitsPlus_unit:
  assumes "integerString ds" "\<not> isDigit u"
  shows "digitsPlus (ds @ u # r) = Some (ds, u # r)"
proof -
  have a: "\<forall>c \<in> set ds. isDigit c" using assms(1) by (simp add: integerString_def list_all_iff)
  have t: "takeWhile isDigit (ds @ u # r) = ds"
    using a assms(2) by (simp add: takeWhile_append2)
  have d: "dropWhile isDigit (ds @ u # r) = u # r"
    using a assms(2) by (simp add: dropWhile_append2)
  have "1 \<le> length ds" using assms(1) by (cases ds) (simp_all add: integerString_def)
  then show ?thesis by (simp add: digitsPlus_def t d)
qed

lemma digitsPlus_Some:
  assumes "digitsPlus s = Some (g, rest)"
  shows "integerString g \<and> s = g @ rest"
proof -
  have g: "g = takeWhile isDigit s" and r: "rest = dropWhile isDigit s" and n: "1 \<le> length g"
    using assms by (auto simp: digitsPlus_def Let_def split: if_splits)
  have "list_all isDigit g" unfolding g list_all_iff by (auto dest: set_takeWhileD)
  moreover have "g \<noteq> []" using n by auto
  moreover have "s = g @ rest" unfolding g r by simp
  ultimately show ?thesis by (simp add: integerString_def)
qed

lemma units_not_digits:
  "\<not> isDigit CHR ''m''" "\<not> isDigit CHR ''M''" "\<not> isDigit CHR ''h''" "\<not> isDigit CHR ''H''"
  by (simp_all add: isDigit_def)

lemma parseDuration_Some:
  assumes "parseDuration s = Some v"
  shows "integerString s \<or> (\<exists>ds u. s = ds @ [u] \<and> integerString ds \<and> u \<in> set ''mMhH'')"
proof -
  obtain g rest where dp: "digitsPlus s = Some (g, rest)"
    using assms by (cases "digitsPlus s") (auto simp: parseDuration_def)
  have gs: "integerString g" "s = g @ rest" using digitsPlus_Some [OF dp] by simp_all
  show ?thesis
  proof (cases "rest = []")
    case True
    then show ?thesis using gs by simp
  next
    case False
    then obtain u rest' where o: "oneOf ''mMhH'' rest = Some (u, rest')"
      using assms dp by (cases "oneOf ''mMhH'' rest") (auto simp: parseDuration_def)
    have e: "rest' = []"
      using assms dp False o by (auto simp: parseDuration_def split: if_splits)
    have "rest = u # rest'" "u \<in> set ''mMhH''"
      using o by (auto simp: oneOf_def split: list.splits if_splits)
    then have "s = g @ [u] \<and> integerString g \<and> u \<in> set ''mMhH''" using gs e by simp
    then show ?thesis by blast
  qed
qed

text \<open>
  Claim C8, as stated: a plain integer string would be mapped to that number of minutes, and an
  integer followed by \<open>h\<close> to that number times 60. The results are JavaScript numbers:
  \<open>2 ^ 53 + 1\<close> is not one, and neither is \<open>600479950316067 * 60\<close>.
\<close>

theorem parseDuration_rounds_large_integers:
  "decimalValue ''9007199254740993'' = 9007199254740993
   \<and> parseDuration ''9007199254740993'' = Some 9007199254740992
   \<and> parseDuration ''9007199254740993'' \<noteq> Some 9007199254740993
   \<and> decimalValue ''600479950316067'' * 60 = 36028797018964020
   \<and> parseDuration ''600479950316067h'' = Some 36028797018964016
   \<and> parseDuration ''600479950316067h'' \<noteq> Some 36028797018964020"
proof -
  have d1: "decimalValue ''9007199254740993'' = 9007199254740993"
    by (simp add: decimalValue_def)
  have r1: "roundToDouble 9007199254740993 = enat 9007199254740992"
    by (simp add: roundToDouble_def binaryExponent.simps Let_def)
  have p1: "parseDuration ''9007199254740993'' = Some (enat 9007199254740992)"
    by (simp add: parseDuration_def digitsPlus_def isDigit_def NumberValue_def d1 r1)
  have d2: "decimalValue ''600479950316067'' = 600479950316067"
    by (simp add: decimalValue_def)
  have r2: "roundToDouble 36028797018964020 = enat 36028797018964016"
    by (simp add: roundToDouble_def binaryExponent.simps Let_def)
  have p2: "parseDuration ''600479950316067h'' = Some (enat 36028797018964016)"
    by (simp add: parseDuration_def digitsPlus_def isDigit_def oneOf_def NumberValue_def d2
        roundToDouble_exact timesDouble_def r2)
  show ?thesis by (simp add: d1 d2 p1 p2 enat_numerals)
qed

text \<open>
  Claim C8, amended. \<open>parseDuration\<close> maps a string of digits whose value is below \<open>2 ^ 53\<close> to
  that number, also when \<open>m\<close> or \<open>M\<close> follows, and digits followed by \<open>h\<close> or \<open>H\<close> to that number
  times 60 when the product is below \<open>2 ^ 53\<close>. For every string of digits the result is the
  JavaScript number of the digits, times 60 in JavaScript arithmetic for \<open>h\<close> and \<open>H\<close>. Every
  other input gives null; \<open>45\<close>, \<open>30m\<close>, \<open>2h\<close> and \<open>abc\<close> give 45, 30, 120 and null.
\<close>

theorem parseDuration_forms:
  "(integerString ds \<and> decimalValue ds < 2 ^ 53 \<longrightarrow>
      parseDuration ds = Some (enat (decimalValue ds))
      \<and> parseDuration (ds @ ''m'') = Some (enat (decimalValue ds))
      \<and> parseDuration (ds @ ''M'') = Some (enat (decimalValue ds)))
   \<and> (integerString ds \<and> decimalValue ds * 60 < 2 ^ 53 \<longrightarrow>
      parseDuration (ds @ ''h'') = Some (enat (decimalValue ds * 60))
      \<and> parseDuration (ds @ ''H'') = Some (enat (decimalValue ds * 60)))
   \<and> (integerString ds \<longrightarrow>
      parseDuration ds = Some (NumberValue ds)
      \<and> parseDuration (ds @ ''m'') = Some (NumberValue ds)
      \<and> parseDuration (ds @ ''M'') = Some (NumberValue ds)
      \<and> parseDuration (ds @ ''h'') = Some (timesDouble (NumberValue ds) 60)
      \<and> parseDuration (ds @ ''H'') = Some (timesDouble (NumberValue ds) 60))
   \<and> (\<not> integerString s \<and> (\<forall>g u. s = g @ [u] \<longrightarrow> \<not> integerString g \<or> u \<notin> set ''mMhH'') \<longrightarrow>
      parseDuration s = None)
   \<and> parseDuration ''45'' = Some 45
   \<and> parseDuration ''30m'' = Some 30
   \<and> parseDuration ''2h'' = Some 120
   \<and> parseDuration ''abc'' = None"
proof -
  have general:
    "parseDuration ds = Some (NumberValue ds)"
    "parseDuration (ds @ ''m'') = Some (NumberValue ds)"
    "parseDuration (ds @ ''M'') = Some (NumberValue ds)"
    "parseDuration (ds @ ''h'') = Some (timesDouble (NumberValue ds) 60)"
    "parseDuration (ds @ ''H'') = Some (timesDouble (NumberValue ds) 60)"
    if i: "integerString ds"
  proof -
    show "parseDuration ds = Some (NumberValue ds)"
      by (simp add: parseDuration_def digitsPlus_all [OF i])
    show "parseDuration (ds @ ''m'') = Some (NumberValue ds)"
      by (simp add: parseDuration_def digitsPlus_unit [OF i units_not_digits(1)] oneOf_def)
    show "parseDuration (ds @ ''M'') = Some (NumberValue ds)"
      by (simp add: parseDuration_def digitsPlus_unit [OF i units_not_digits(2)] oneOf_def)
    show "parseDuration (ds @ ''h'') = Some (timesDouble (NumberValue ds) 60)"
      by (simp add: parseDuration_def digitsPlus_unit [OF i units_not_digits(3)] oneOf_def)
    show "parseDuration (ds @ ''H'') = Some (timesDouble (NumberValue ds) 60)"
      by (simp add: parseDuration_def digitsPlus_unit [OF i units_not_digits(4)] oneOf_def)
  qed
  have minutes:
    "parseDuration ds = Some (enat (decimalValue ds))
     \<and> parseDuration (ds @ ''m'') = Some (enat (decimalValue ds))
     \<and> parseDuration (ds @ ''M'') = Some (enat (decimalValue ds))"
    if "integerString ds \<and> decimalValue ds < 2 ^ 53"
  proof -
    have "NumberValue ds = enat (decimalValue ds)"
      using that by (simp add: NumberValue_def roundToDouble_exact)
    then show ?thesis using general(1,2,3) that by simp
  qed
  have hours:
    "parseDuration (ds @ ''h'') = Some (enat (decimalValue ds * 60))
     \<and> parseDuration (ds @ ''H'') = Some (enat (decimalValue ds * 60))"
    if "integerString ds \<and> decimalValue ds * 60 < 2 ^ 53"
  proof -
    have "decimalValue ds < 2 ^ 53" using that by simp
    then have "NumberValue ds = enat (decimalValue ds)"
      by (simp add: NumberValue_def roundToDouble_exact)
    then have "timesDouble (NumberValue ds) 60 = enat (decimalValue ds * 60)"
      using that by (simp add: timesDouble_def roundToDouble_exact)
    then show ?thesis using general(4,5) that by simp
  qed
  have other: "parseDuration s = None"
    if n: "\<not> integerString s \<and> (\<forall>g u. s = g @ [u] \<longrightarrow> \<not> integerString g \<or> u \<notin> set ''mMhH'')"
  proof (cases "parseDuration s")
    case None
    then show ?thesis .
  next
    case (Some v)
    then show ?thesis using parseDuration_Some [OF Some] n by blast
  qed
  show ?thesis
    using general minutes hours other parseDuration_examples by (intro conjI impI) blast+
qed

text \<open>The forms at the digits \<open>90\<close>, and the combined form \<open>1h30m\<close>, which is none of them.\<close>

theorem parseDuration_forms_witness:
  "integerString ''90'' \<and> decimalValue ''90'' = 90
   \<and> parseDuration ''90'' = Some 90 \<and> parseDuration ''90M'' = Some 90 \<and> parseDuration ''90H'' = Some 5400
   \<and> NumberValue ''90'' = 90 \<and> timesDouble 90 60 = 5400
   \<and> parseDuration ''1h30m'' = None"
proof -
  have i: "integerString ''90''" by (simp add: integerString_def isDigit_def)
  have d: "decimalValue ''90'' = 90" by (simp add: decimalValue_def)
  have b1: "integerString ''90'' \<and> decimalValue ''90'' < 2 ^ 53" using i by (simp add: d)
  have b2: "integerString ''90'' \<and> decimalValue ''90'' * 60 < 2 ^ 53" using i by (simp add: d)
  have x: "\<not> integerString ''1h30m'' \<and> (\<forall>g u. ''1h30m'' = g @ [u] \<longrightarrow> \<not> integerString g \<or> u \<notin> set ''mMhH'')"
  proof (intro conjI allI impI)
    show "\<not> integerString ''1h30m''" by (simp add: integerString_def isDigit_def)
    fix g u assume "''1h30m'' = g @ [u]"
    then have "g = butlast ''1h30m''" by (metis butlast_snoc)
    then have "g = ''1h30''" by simp
    then show "\<not> integerString g \<or> u \<notin> set ''mMhH''" by (simp add: integerString_def isDigit_def)
  qed
  note t = parseDuration_forms [of "''90''" "''1h30m''"]
  have m: "parseDuration ''90'' = Some (enat (decimalValue ''90''))
     \<and> parseDuration (''90'' @ ''m'') = Some (enat (decimalValue ''90''))
     \<and> parseDuration (''90'' @ ''M'') = Some (enat (decimalValue ''90''))"
    by (rule t [THEN conjunct1, rule_format, OF b1])
  have h: "parseDuration (''90'' @ ''h'') = Some (enat (decimalValue ''90'' * 60))
     \<and> parseDuration (''90'' @ ''H'') = Some (enat (decimalValue ''90'' * 60))"
    by (rule t [THEN conjunct2, THEN conjunct1, rule_format, OF b2])
  have g: "parseDuration ''90'' = Some (NumberValue ''90'')
      \<and> parseDuration (''90'' @ ''m'') = Some (NumberValue ''90'')
      \<and> parseDuration (''90'' @ ''M'') = Some (NumberValue ''90'')
      \<and> parseDuration (''90'' @ ''h'') = Some (timesDouble (NumberValue ''90'') 60)
      \<and> parseDuration (''90'' @ ''H'') = Some (timesDouble (NumberValue ''90'') 60)"
    by (rule t [THEN conjunct2, THEN conjunct2, THEN conjunct1, rule_format, OF i])
  have n: "parseDuration ''1h30m'' = None"
    by (rule t [THEN conjunct2, THEN conjunct2, THEN conjunct2, THEN conjunct1, rule_format, OF x])
  have nv: "NumberValue ''90'' = 90" using m g by (simp add: d enat_numerals)
  have td: "timesDouble 90 60 = 5400" using h g nv by (simp add: d enat_numerals)
  show ?thesis using i d m h n nv td by (simp add: enat_numerals)
qed

text \<open>
  On the captures of the date patterns, which hold at most four digits, \<open>Number\<close> as used by
  \<open>parseDateParts\<close> is the JavaScript number of the digits.
\<close>

lemma digit_code: "isDigit c \<Longrightarrow> 48 \<le> (of_char c :: nat) \<and> (of_char c :: nat) \<le> 57"
  by (auto simp: isDigit_def)

lemma decimalValue_snoc: "decimalValue (ds @ [c]) = 10 * decimalValue ds + (of_char c - 48)"
  by (simp add: decimalValue_def)

lemma Number_snoc: "Number (ds @ [c]) = 10 * Number ds + digitVal c"
  by (simp add: Number_def)

lemma Number_decimalValue: "list_all isDigit ds \<Longrightarrow> Number ds = int (decimalValue ds)"
proof (induction ds rule: rev_induct)
  case Nil
  then show ?case by (simp add: Number_def decimalValue_def)
next
  case (snoc c ds)
  have "isDigit c" using snoc.prems by simp
  then have "digitVal c = int (of_char c - 48)"
    using digit_code [of c] by (simp add: digitVal_def)
  then show ?case using snoc by (simp add: Number_snoc decimalValue_snoc)
qed

lemma decimalValue_bound: "list_all isDigit ds \<Longrightarrow> decimalValue ds < 10 ^ length ds"
proof (induction ds rule: rev_induct)
  case Nil
  then show ?case by (simp add: decimalValue_def)
next
  case (snoc c ds)
  have "isDigit c" using snoc.prems by simp
  then have "(of_char c :: nat) - 48 \<le> 9" using digit_code [of c] by arith
  moreover have "decimalValue ds < 10 ^ length ds" using snoc by simp
  ultimately show ?case by (simp add: decimalValue_snoc)
qed

lemma Number_is_NumberValue:
  assumes "digitString lo hi ds" "hi \<le> 15"
  shows "NumberValue ds = enat (nat (Number ds))" and "Number ds = int (decimalValue ds)"
proof -
  have a: "list_all isDigit ds" and l: "length ds \<le> 15"
    using assms by (simp_all add: digitString_def)
  show n: "Number ds = int (decimalValue ds)" by (rule Number_decimalValue [OF a])
  have "(10::nat) ^ length ds \<le> 10 ^ 15" using l by (intro power_increasing) simp_all
  then have "decimalValue ds < 10 ^ 15" using decimalValue_bound [OF a] by simp
  then have "decimalValue ds < 2 ^ 53" by simp
  then show "NumberValue ds = enat (nat (Number ds))"
    by (simp add: NumberValue_def roundToDouble_exact n)
qed

lemma parseDateParts_year:
  "parseDateParts s = Some parts \<Longrightarrow> hasYear parts = (partsYear parts \<noteq> None)"
  by (auto simp: parseDateParts_def split: option.splits)

lemma digitRun_prefix:
  assumes "digitString lo hi g" "r = [] \<or> \<not> isDigit (hd r)"
  shows "digitRun lo hi (g @ r) = Some (g, r)"
proof -
  have a: "\<forall>c \<in> set g. isDigit c" using assms(1) by (simp add: digitString_def list_all_iff)
  have t: "takeWhile isDigit (g @ r) = g"
    using a assms(2) by (cases r) (simp_all add: takeWhile_append2)
  have d: "dropWhile isDigit (g @ r) = r"
    using a assms(2) by (cases r) (simp_all add: dropWhile_append2)
  show ?thesis using assms(1) by (simp add: digitRun_def t d digitString_def)
qed

lemma digitRun_too_short:
  assumes "digitString lo hi g" "hi < lo'" "r = [] \<or> \<not> isDigit (hd r)"
  shows "digitRun lo' hi' (g @ r) = None"
proof -
  have a: "\<forall>c \<in> set g. isDigit c" using assms(1) by (simp add: digitString_def list_all_iff)
  have t: "takeWhile isDigit (g @ r) = g"
    using a assms(3) by (cases r) (simp_all add: takeWhile_append2)
  show ?thesis using assms(1,2) by (simp add: digitRun_def t digitString_def)
qed

lemma separators_not_digits: "c \<in> set ''/-'' \<Longrightarrow> \<not> isDigit c"
  by (auto simp: isDigit_def)

lemma matchMd_string:
  assumes "digitString 1 2 g1" "c \<in> set ''/-''" "digitString 1 2 g2"
  shows "matchMd (g1 @ c # g2) = Some (g1, g2)" and "matchYmd (g1 @ c # g2) = None"
proof -
  have n: "\<not> isDigit c" using assms(2) by (rule separators_not_digits)
  have r1: "digitRun 1 2 (g1 @ c # g2) = Some (g1, c # g2)"
    using digitRun_prefix [OF assms(1), of "c # g2"] n by simp
  have r2: "digitRun 1 2 g2 = Some (g2, [])"
    using digitRun_prefix [OF assms(3), of "[]"] by simp
  show "matchMd (g1 @ c # g2) = Some (g1, g2)"
    using assms(2) by (simp add: matchMd_def r1 r2 oneOf_def del: One_nat_def)
  have "digitRun 4 4 (g1 @ c # g2) = None"
    using digitRun_too_short [OF assms(1), of 4 "c # g2" 4] n by simp
  then show "matchYmd (g1 @ c # g2) = None" by (simp add: matchYmd_def)
qed

lemma matchYmd_string:
  assumes "digitString 4 4 y" "digitString 1 2 m" "digitString 1 2 d"
  shows "matchYmd (y @ ''-'' @ m @ ''-'' @ d) = Some (y, m, d)"
proof -
  have n: "\<not> isDigit CHR ''-''" by (simp add: isDigit_def)
  have r1: "digitRun 4 4 (y @ ''-'' @ m @ ''-'' @ d) = Some (y, ''-'' @ m @ ''-'' @ d)"
    using digitRun_prefix [OF assms(1), of "''-'' @ m @ ''-'' @ d"] n by simp
  have r2: "digitRun 1 2 (m @ ''-'' @ d) = Some (m, ''-'' @ d)"
    using digitRun_prefix [OF assms(2), of "''-'' @ d"] n by simp
  have r3: "digitRun 1 2 d = Some (d, [])"
    using digitRun_prefix [OF assms(3), of "[]"] by simp
  show ?thesis using r1 r2 r3 by (simp add: matchYmd_def oneOf_def del: One_nat_def)
qed

text \<open>
  Claim C6. For a valid reference instant and a month/day string without a year (one or two
  digits, a slash or a hyphen, one or two digits) whose date is valid in the reference year:
  \<open>parseDate\<close> returns the date in the following year when it is strictly before the
  reference day, and in the reference year when it is on or after it. A string \<open>YYYY-M-D\<close>
  with an explicit year is returned with that year.
\<close>

theorem parseDate_year_resolution:
  "(digitString 1 2 g1 \<and> c \<in> set ''/-'' \<and> digitString 1 2 g2 \<and> isValid now
      \<and> isValid \<lparr> year = year now, month = Number g1, day = Number g2 \<rparr> \<longrightarrow>
        (earlier \<lparr> year = year now, month = Number g1, day = Number g2 \<rparr> now \<longrightarrow>
           parseDate (g1 @ c # g2) now = Some \<lparr> year = year now + 1, month = Number g1, day = Number g2 \<rparr>)
      \<and> (\<not> earlier \<lparr> year = year now, month = Number g1, day = Number g2 \<rparr> now \<longrightarrow>
           parseDate (g1 @ c # g2) now = Some \<lparr> year = year now, month = Number g1, day = Number g2 \<rparr>))
   \<and> (digitString 4 4 y \<and> digitString 1 2 m \<and> digitString 1 2 d \<longrightarrow>
        parseDate (y @ ''-'' @ m @ ''-'' @ d) now = Some \<lparr> year = Number y, month = Number m, day = Number d \<rparr>)"
proof (intro conjI impI)
  assume h: "digitString 1 2 g1 \<and> c \<in> set ''/-'' \<and> digitString 1 2 g2 \<and> isValid now
      \<and> isValid \<lparr> year = year now, month = Number g1, day = Number g2 \<rparr>"
  then have md: "matchMd (g1 @ c # g2) = Some (g1, g2)" "matchYmd (g1 @ c # g2) = None"
    using matchMd_string [of g1 c g2] by simp_all
  show "parseDate (g1 @ c # g2) now = Some \<lparr> year = year now + 1, month = Number g1, day = Number g2 \<rparr>"
    if "earlier \<lparr> year = year now, month = Number g1, day = Number g2 \<rparr> now"
    using that h by (simp add: parseDate_def parseDateParts_def md dateTimeLess_def)
  show "parseDate (g1 @ c # g2) now = Some \<lparr> year = year now, month = Number g1, day = Number g2 \<rparr>"
    if "\<not> earlier \<lparr> year = year now, month = Number g1, day = Number g2 \<rparr> now"
    using that h by (simp add: parseDate_def parseDateParts_def md dateTimeLess_def)
next
  assume "digitString 4 4 y \<and> digitString 1 2 m \<and> digitString 1 2 d"
  then have "matchYmd (y @ ''-'' @ m @ ''-'' @ d) = Some (y, m, d)"
    using matchYmd_string [of y m d] by simp
  then show "parseDate (y @ ''-'' @ m @ ''-'' @ d) now = Some \<lparr> year = Number y, month = Number m, day = Number d \<rparr>"
    by (simp add: parseDate_def parseDateParts_def)
qed

text \<open>\<open>1/5\<close>, \<open>12-1\<close> and \<open>2024-1-5\<close> seen from 2025-12-01.\<close>

theorem parseDate_year_resolution_witness:
  "isValid reference2025
   \<and> parseDate ''1/5'' reference2025 = Some \<lparr> year = 2026, month = 1, day = 5 \<rparr>
   \<and> parseDate ''12-1'' reference2025 = Some \<lparr> year = 2025, month = 12, day = 1 \<rparr>
   \<and> parseDate ''2024-1-5'' reference2025 = Some \<lparr> year = 2024, month = 1, day = 5 \<rparr>"
proof -
  have n: "Number ''1'' = 1" "Number ''5'' = 5" "Number ''12'' = 12" "Number ''2024'' = 2024"
    "year reference2025 = 2025"
    by (simp_all add: Number_def digitVal_def reference2025_def)
  have v: "isValid reference2025" by (simp add: reference2025_def isValid_def daysInMonth_def)
  have a: "digitString 1 2 ''1'' \<and> CHR ''/'' \<in> set ''/-'' \<and> digitString 1 2 ''5'' \<and> isValid reference2025
      \<and> isValid \<lparr> year = year reference2025, month = Number ''1'', day = Number ''5'' \<rparr>"
  proof (intro conjI v)
    show "isValid \<lparr> year = year reference2025, month = Number ''1'', day = Number ''5'' \<rparr>"
      by (simp add: n isValid_def daysInMonth_def)
  qed (simp_all add: digitString_def isDigit_def)
  have a': "earlier \<lparr> year = year reference2025, month = Number ''1'', day = Number ''5'' \<rparr> reference2025"
    by (simp add: n) (simp add: reference2025_def earlier_def)
  have b: "digitString 1 2 ''12'' \<and> CHR ''-'' \<in> set ''/-'' \<and> digitString 1 2 ''1'' \<and> isValid reference2025
      \<and> isValid \<lparr> year = year reference2025, month = Number ''12'', day = Number ''1'' \<rparr>"
  proof (intro conjI v)
    show "isValid \<lparr> year = year reference2025, month = Number ''12'', day = Number ''1'' \<rparr>"
      by (simp add: n isValid_def daysInMonth_def)
  qed (simp_all add: digitString_def isDigit_def)
  have b': "\<not> earlier \<lparr> year = year reference2025, month = Number ''12'', day = Number ''1'' \<rparr> reference2025"
    by (simp add: n) (simp add: reference2025_def earlier_def)
  have c: "digitString 4 4 ''2024'' \<and> digitString 1 2 ''1'' \<and> digitString 1 2 ''5''"
    by (simp add: digitString_def isDigit_def)
  show ?thesis
    using parseDate_year_resolution [of "''1''" "CHR ''/''" "''5''" reference2025, THEN conjunct1, rule_format, OF a, THEN conjunct1, rule_format, OF a']
      parseDate_year_resolution [of "''12''" "CHR ''-''" "''1''" reference2025, THEN conjunct1, rule_format, OF b, THEN conjunct2, rule_format, OF b']
      parseDate_year_resolution [of _ _ _ reference2025 "''2024''" "''1''" "''5''", THEN conjunct2, rule_format, OF c]
      v
    by (simp add: n)
qed

lemma parseDateParts_md:
  assumes "digitString 1 2 g1" "c \<in> set ''/-''" "digitString 1 2 g2"
  shows "parseDateParts (g1 @ c # g2)
     = Some \<lparr> partsYear = None, partsMonth = Number g1, partsDay = Number g2, hasYear = False \<rparr>"
  using matchMd_string [OF assms] by (simp add: parseDateParts_def)

lemma resolveRange_end_year:
  assumes "resolveRange sp ep now = Some r" "\<not> hasYear ep"
  shows "month (endDate r) = partsMonth ep \<and> day (endDate r) = partsDay ep
     \<and> year (endDate r) =
        (if earlier \<lparr> year = year (startDate r), month = partsMonth ep, day = partsDay ep \<rparr> (startDate r)
         then year (startDate r) + 1 else year (startDate r))"
  using assms
  by (auto simp: resolveRange_def Let_def dateTimeLess_def split: if_splits)

text \<open>
  Claim C5. When \<open>parseDateRange\<close> resolves a range whose end token is a month/day string
  without a year, the end keeps its month and day and takes the year of the resolved start,
  advanced by one when the end in that year is strictly before the resolved start. \<open>12/30~1/3\<close> seen from 2025-12-01 is the
  range from 2025-12-30 to 2026-01-03.
\<close>

theorem parseDateRange_end_year:
  "(rangeTokens dateStr = (Some st, Some (g1 @ c # g2)) \<and> st \<noteq> []
      \<and> digitString 1 2 g1 \<and> c \<in> set ''/-'' \<and> digitString 1 2 g2
      \<and> parseDateRange dateStr now = Some r \<longrightarrow>
        month (endDate r) = Number g1 \<and> day (endDate r) = Number g2
        \<and> year (endDate r) =
           (if earlier \<lparr> year = year (startDate r), month = Number g1, day = Number g2 \<rparr> (startDate r)
            then year (startDate r) + 1 else year (startDate r)))
   \<and> parseDateRange ''12/30~1/3'' reference2025
       = Some \<lparr> startDate = \<lparr> year = 2025, month = 12, day = 30 \<rparr>,
                endDate = \<lparr> year = 2026, month = 1, day = 3 \<rparr> \<rparr>"
proof (intro conjI impI)
  assume h: "rangeTokens dateStr = (Some st, Some (g1 @ c # g2)) \<and> st \<noteq> []
      \<and> digitString 1 2 g1 \<and> c \<in> set ''/-'' \<and> digitString 1 2 g2
      \<and> parseDateRange dateStr now = Some r"
  define ep where "ep = \<lparr> partsYear = None, partsMonth = Number g1, partsDay = Number g2, hasYear = False \<rparr>"
  have pe: "parseDateParts (g1 @ c # g2) = Some ep"
    using h parseDateParts_md [of g1 c g2] by (simp add: ep_def)
  have t: "rangeTokens dateStr = (Some st, Some (g1 @ c # g2))" "st \<noteq> []" using h by simp_all
  have p: "parseDateRange dateStr now = Some r" using h by simp
  obtain sp where rr: "resolveRange sp ep now = Some r"
    using p by (cases "parseDateParts st") (simp_all add: parseDateRange_def t truthy_def pe)
  have e: "month (endDate r) = partsMonth ep \<and> day (endDate r) = partsDay ep
     \<and> year (endDate r) =
        (if earlier \<lparr> year = year (startDate r), month = partsMonth ep, day = partsDay ep \<rparr> (startDate r)
         then year (startDate r) + 1 else year (startDate r))"
    by (rule resolveRange_end_year [OF rr]) (simp add: ep_def)
  show "month (endDate r) = Number g1" using e by (simp add: ep_def)
  show "day (endDate r) = Number g2" using e by (simp add: ep_def)
  show "year (endDate r) =
           (if earlier \<lparr> year = year (startDate r), month = Number g1, day = Number g2 \<rparr> (startDate r)
            then year (startDate r) + 1 else year (startDate r))" using e by (simp add: ep_def)
next
  show "parseDateRange ''12/30~1/3'' reference2025
       = Some \<lparr> startDate = \<lparr> year = 2025, month = 12, day = 30 \<rparr>,
                endDate = \<lparr> year = 2026, month = 1, day = 3 \<rparr> \<rparr>"
    by (rule range_scenario)
qed

text \<open>The same range written with the separator of two dots.\<close>

theorem parseDateRange_end_year_witness:
  "parseDateRange ''12/30..1/3'' reference2025
       = Some \<lparr> startDate = \<lparr> year = 2025, month = 12, day = 30 \<rparr>,
                endDate = \<lparr> year = 2026, month = 1, day = 3 \<rparr> \<rparr>
   \<and> earlier \<lparr> year = 2025, month = 1, day = 3 \<rparr> \<lparr> year = 2025, month = 12, day = 30 \<rparr>
   \<and> (2026::int) = (if earlier \<lparr> year = 2025, month = 1, day = 3 \<rparr> \<lparr> year = 2025, month = 12, day = 30 \<rparr>
        then 2025 + 1 else 2025)"
proof -
  have t: "rangeTokens ''12/30..1/3'' = (Some ''12/30'', Some ''1/3'')"
    by (simp add: rangeTokens_def split_def pieces_def)
  have p: "parseDateRange ''12/30..1/3'' reference2025
       = Some \<lparr> startDate = \<lparr> year = 2025, month = 12, day = 30 \<rparr>,
                endDate = \<lparr> year = 2026, month = 1, day = 3 \<rparr> \<rparr>"
    by (simp add: parseDateRange_def t truthy_def parts_12_30 parts_1_3 resolveRange_def
      date_defs reference2025_def Let_def)
  have h: "rangeTokens ''12/30..1/3'' = (Some ''12/30'', Some (''1'' @ CHR ''/'' # ''3'')) \<and> ''12/30'' \<noteq> []
      \<and> digitString 1 2 ''1'' \<and> CHR ''/'' \<in> set ''/-'' \<and> digitString 1 2 ''3''
      \<and> parseDateRange ''12/30..1/3'' reference2025
         = Some \<lparr> startDate = \<lparr> year = 2025, month = 12, day = 30 \<rparr>,
                  endDate = \<lparr> year = 2026, month = 1, day = 3 \<rparr> \<rparr>"
    using t p by (simp add: digitString_def isDigit_def)
  have n: "Number ''1'' = 1" "Number ''3'' = 3" by (simp_all add: Number_def digitVal_def)
  have e: "earlier \<lparr> year = 2025, month = 1, day = 3 \<rparr> \<lparr> year = 2025, month = 12, day = 30 \<rparr>"
    by (simp add: earlier_def)
  show ?thesis
    using parseDateRange_end_year [THEN conjunct1, rule_format, OF h] p e by (simp add: n)
qed

end
